theory Spec2Isabelle
  imports Complex_Main "HOL-Library.AList"
begin

section \<open>Values shared by the components\<close>

text \<open>
  Request ids and progress tokens have the TypeScript type \<open>string | number\<close>. A
  JavaScript \<open>Map\<close> compares keys by value within one type, so \<open>1\<close> and \<open>"1"\<close> are
  different keys: the two cases are two constructors. Numeric ids are integers.
\<close>

datatype Key = StrKey string | NumKey int

text \<open>JavaScript truthiness of such a value (\<open>!requestId\<close>, \<open>!!progressToken\<close>).\<close>

fun truthy :: "Key \<Rightarrow> bool" where
  "truthy (StrKey s) = (s \<noteq> [])"
| "truthy (NumKey n) = (n \<noteq> 0)"

text \<open>
  A JavaScript \<open>Map\<close> is an association list in insertion order: \<open>get\<close> is
  \<^const>\<open>map_of\<close>, \<open>set\<close> is \<^const>\<open>AList.update\<close> (an existing key keeps its
  place, a new one goes last) and \<open>delete\<close> is \<^const>\<open>AList.delete\<close>.

  A call of the \<open>Logger\<close> collaborator is recorded by its level and its event code.
\<close>

datatype LogLevel = DEBUG | INFO | WARN | ERROR | FATAL

type_synonym LogCall = "LogLevel \<times> string"

section \<open>Request tracker (request-tracker.ts)\<close>

text \<open>
  An \<open>AbortController\<close> is the cancellation handle: its signal is a flag and a reason.
  \<open>abort(reason)\<close> sets both once; on a signal that is already aborted it does nothing.
  Without an argument the reason is the platform's \<open>AbortError\<close>.
\<close>

datatype AbortReason = GivenReason string | AbortError

record AbortController =
  aborted :: bool
  reason :: "AbortReason option"

definition newAbortController :: AbortController where
  "newAbortController = \<lparr>aborted = False, reason = None\<rparr>"

definition abort :: "string option \<Rightarrow> AbortController \<Rightarrow> AbortController" where
  "abort r c =
     (if aborted c then c
      else c\<lparr>aborted := True,
             reason := Some (case r of None \<Rightarrow> AbortError | Some s \<Rightarrow> GivenReason s)\<rparr>)"

text \<open>
  \<open>RequestContext\<close> objects and their controllers are shared by reference: the tracker
  stores them in its maps and hands the same object to its callers. The model keeps one
  heap per class, \<open>contexts\<close> and \<open>controllers\<close>; a reference is an index, and a
  registration allocates the context and the controller it owns at the next free index
  \<open>nextRef\<close>. The field \<open>abortController\<close> of a context is the reference of its
  controller.
\<close>

record RequestContext =
  requestId :: Key
  abortController :: nat
  progressToken :: "Key option"
  startTime :: int
  toolName :: "string option"

record RequestTracker =
  activeRequests :: "(Key \<times> nat) list"
  progressTokens :: "(Key \<times> Key) list"
  contexts :: "nat \<rightharpoonup> RequestContext"
  controllers :: "nat \<Rightarrow> AbortController"
  nextRef :: nat
  trackerLog :: "LogCall list"

definition newRequestTracker :: RequestTracker where
  "newRequestTracker =
     \<lparr>activeRequests = [], progressTokens = [], contexts = Map.empty,
      controllers = (\<lambda>_. newAbortController), nextRef = 0, trackerLog = []\<rparr>"

definition logT :: "LogCall \<Rightarrow> RequestTracker \<Rightarrow> RequestTracker" where
  "logT l t = t\<lparr>trackerLog := trackerLog t @ [l]\<rparr>"

text \<open>\<open>this.activeRequests.get(requestId)\<close>: the reference and the object behind it.\<close>

definition getRequest :: "RequestTracker \<Rightarrow> Key \<Rightarrow> (nat \<times> RequestContext) option" where
  "getRequest t rid =
     (case map_of (activeRequests t) rid of
        None \<Rightarrow> None
      | Some r \<Rightarrow> (case contexts t r of None \<Rightarrow> None | Some ctx \<Rightarrow> Some (r, ctx)))"

text \<open>\<open>controller.abort(reason)\<close> on the controller at reference \<open>a\<close>.\<close>

definition abortAt :: "nat \<Rightarrow> string option \<Rightarrow> RequestTracker \<Rightarrow> RequestTracker" where
  "abortAt a r t = t\<lparr>controllers := (controllers t)(a := abort r (controllers t a))\<rparr>"

text \<open>\<open>context.abortController.signal.aborted\<close> for the context at reference \<open>r\<close>.\<close>

definition signalAborted :: "RequestTracker \<Rightarrow> nat \<Rightarrow> bool" where
  "signalAborted t r =
     (case contexts t r of None \<Rightarrow> False | Some ctx \<Rightarrow> aborted (controllers t (abortController ctx)))"

text \<open>
  \<open>registerRequest(requestId, progressToken?, toolName?)\<close>, with \<open>now\<close> the value of
  \<open>Date.now()\<close>. It returns the reference of the context.
\<close>

definition registerRequest ::
  "Key \<Rightarrow> Key option \<Rightarrow> string option \<Rightarrow> int \<Rightarrow> RequestTracker \<Rightarrow> nat \<times> RequestTracker" where
  "registerRequest rid tok name now t =
     (case map_of (activeRequests t) rid of
        Some r \<Rightarrow> (r, logT (WARN, ''REQUEST_DUPLICATE'') t)
      | None \<Rightarrow>
          let r = nextRef t;
              ctx = \<lparr>requestId = rid, abortController = r, progressToken = tok,
                     startTime = now, toolName = name\<rparr>;
              t1 = t\<lparr>activeRequests := AList.update rid r (activeRequests t),
                     contexts := (contexts t)(r \<mapsto> ctx),
                     controllers := (controllers t)(r := newAbortController),
                     nextRef := Suc (nextRef t)\<rparr>;
              t2 = (case tok of
                      None \<Rightarrow> t1
                    | Some p \<Rightarrow> t1\<lparr>progressTokens := AList.update p rid (progressTokens t1)\<rparr>)
          in (r, logT (INFO, ''REQUEST_REGISTERED'') t2))"

definition getRequestByProgressToken ::
  "RequestTracker \<Rightarrow> Key \<Rightarrow> (nat \<times> RequestContext) option" where
  "getRequestByProgressToken t tok =
     (case map_of (progressTokens t) tok of
        None \<Rightarrow> None
      | Some rid \<Rightarrow> if truthy rid then getRequest t rid else None)"

text \<open>\<open>cleanup(requestId)\<close>: the maps forget the request; the objects stay in the heap.\<close>

definition cleanup :: "Key \<Rightarrow> RequestTracker \<Rightarrow> RequestTracker" where
  "cleanup rid t =
     (case getRequest t rid of
        None \<Rightarrow> t
      | Some (r, ctx) \<Rightarrow>
          let t1 = (case progressToken ctx of
                      None \<Rightarrow> t
                    | Some p \<Rightarrow> t\<lparr>progressTokens := AList.delete p (progressTokens t)\<rparr>);
              t2 = t1\<lparr>activeRequests := AList.delete rid (activeRequests t1)\<rparr>
          in logT (DEBUG, ''REQUEST_CLEANUP'') t2)"

text \<open>\<open>cancelRequest(requestId, reason?)\<close>.\<close>

definition cancelRequest ::
  "Key \<Rightarrow> string option \<Rightarrow> RequestTracker \<Rightarrow> bool \<times> RequestTracker" where
  "cancelRequest rid rsn t =
     (case getRequest t rid of
        None \<Rightarrow> (False, logT (DEBUG, ''CANCEL_REQUEST_NOT_FOUND'') t)
      | Some (r, ctx) \<Rightarrow>
          if aborted (controllers t (abortController ctx))
          then (False, logT (DEBUG, ''CANCEL_REQUEST_ALREADY_ABORTED'') t)
          else (True,
                cleanup rid
                  (logT (INFO, ''REQUEST_CANCELLED'') (abortAt (abortController ctx) rsn t))))"

definition isActive :: "RequestTracker \<Rightarrow> Key \<Rightarrow> bool" where
  "isActive t rid =
     (case getRequest t rid of
        None \<Rightarrow> False
      | Some (r, ctx) \<Rightarrow> \<not> aborted (controllers t (abortController ctx)))"

definition isProgressTokenActive :: "RequestTracker \<Rightarrow> Key \<Rightarrow> bool" where
  "isProgressTokenActive t tok =
     (case map_of (progressTokens t) tok of
        None \<Rightarrow> False
      | Some rid \<Rightarrow> if truthy rid then isActive t rid else False)"

definition getActiveRequestIds :: "RequestTracker \<Rightarrow> Key list" where
  "getActiveRequestIds t = map fst (activeRequests t)"

text \<open>
  \<open>cleanupStaleRequests(maxAgeMs)\<close> walks the entries of \<open>activeRequests\<close>; the only
  entry it deletes on the way is the one it stands on, so the walk sees the entries the map
  had at the start, in order.
\<close>

fun sweep :: "int \<Rightarrow> int \<Rightarrow> (Key \<times> nat) list \<Rightarrow> nat \<times> RequestTracker \<Rightarrow> nat \<times> RequestTracker" where
  "sweep now maxAgeMs [] (n, t) = (n, t)"
| "sweep now maxAgeMs ((rid, r) # es) (n, t) =
     (case contexts t r of
        None \<Rightarrow> sweep now maxAgeMs es (n, t)
      | Some ctx \<Rightarrow>
          if now - startTime ctx > maxAgeMs
          then let t1 = logT (WARN, ''REQUEST_STALE'') t;
                   t2 = (if aborted (controllers t1 (abortController ctx)) then t1
                         else abortAt (abortController ctx) (Some ''Request timed out'') t1)
               in sweep now maxAgeMs es (Suc n, cleanup rid t2)
          else sweep now maxAgeMs es (n, t))"

definition cleanupStaleRequests :: "int \<Rightarrow> int \<Rightarrow> RequestTracker \<Rightarrow> nat \<times> RequestTracker" where
  "cleanupStaleRequests maxAgeMs now t =
     (case sweep now maxAgeMs (activeRequests t) (0, t) of
        (n, t1) \<Rightarrow> (n, if n > 0 then logT (INFO, ''STALE_CLEANUP_COMPLETE'') t1 else t1))"

fun abortEach :: "(Key \<times> nat) list \<Rightarrow> RequestTracker \<Rightarrow> RequestTracker" where
  "abortEach [] t = t"
| "abortEach ((rid, r) # es) t =
     (case contexts t r of
        None \<Rightarrow> abortEach es t
      | Some ctx \<Rightarrow>
          abortEach es
            (if aborted (controllers t (abortController ctx)) then t
             else abortAt (abortController ctx) (Some ''Server shutting down'') t))"

definition shutdown :: "RequestTracker \<Rightarrow> RequestTracker" where
  "shutdown t =
     (let t1 = abortEach (activeRequests t) (logT (INFO, ''REQUEST_TRACKER_SHUTDOWN'') t)
      in t1\<lparr>activeRequests := [], progressTokens := []\<rparr>)"

text \<open>
  The operations of the tracker as data, to speak of the states it reaches through them.
\<close>

datatype TrackerOp =
    Register Key "Key option" "string option" int
  | Cancel Key "string option"
  | Cleanup Key
  | Sweep int int
  | Shutdown

fun perform :: "TrackerOp \<Rightarrow> RequestTracker \<Rightarrow> RequestTracker" where
  "perform (Register rid tok name now) t = snd (registerRequest rid tok name now t)"
| "perform (Cancel rid rsn) t = snd (cancelRequest rid rsn t)"
| "perform (Cleanup rid) t = cleanup rid t"
| "perform (Sweep maxAgeMs now) t = snd (cleanupStaleRequests maxAgeMs now t)"
| "perform Shutdown t = shutdown t"

fun performAll :: "TrackerOp list \<Rightarrow> RequestTracker \<Rightarrow> RequestTracker" where
  "performAll [] t = t"
| "performAll (x # xs) t = performAll xs (perform x t)"

section \<open>Progress reporter (progress-reporter.ts)\<close>

text \<open>
  Progress values and totals are JavaScript numbers: a finite value, one of the two
  infinities, or \<open>NaN\<close>. The reporter only compares them. \<open>numLe a b\<close> is
  \<open>a <= b\<close>, and so \<open>b >= a\<close>: it is false as soon as one side is \<open>NaN\<close>.
  \<open>Date.now()\<close> is an integer number of milliseconds.
\<close>

datatype Number = NaN | NegInfinity | Finite real | Infinity

fun numLe :: "Number \<Rightarrow> Number \<Rightarrow> bool" where
  "numLe NaN b = False"
| "numLe a NaN = False"
| "numLe NegInfinity b = True"
| "numLe a Infinity = True"
| "numLe (Finite x) (Finite y) = (x \<le> y)"
| "numLe a b = False"

record ProgressUpdate =
  progress :: Number
  total :: "Number option"
  message :: "string option"

record ProgressState =
  lastProgress :: Number
  lastUpdateTime :: int
  updateCount :: nat

text \<open>
  The notification handed to \<open>server.notification\<close>: method
  \<open>notifications/progress\<close> with the token, the progress, the total when it is defined
  and the message when it is a non-empty string.
\<close>

datatype Notification = ProgressNotification Key Number "Number option" "string option"

fun notifiedToken :: "Notification \<Rightarrow> Key" where
  "notifiedToken (ProgressNotification k p tt m) = k"

fun notifiedProgress :: "Notification \<Rightarrow> Number" where
  "notifiedProgress (ProgressNotification k p tt m) = p"

text \<open>
  The state of a \<open>ProgressReporter\<close> object, with two traces: \<open>sent\<close> collects the
  notifications the sink accepted, in the order in which it accepted them, and
  \<open>reporterLog\<close> the calls of the logger.
\<close>

record ProgressReporter =
  progressStates :: "(Key \<times> ProgressState) list"
  sent :: "Notification list"
  reporterLog :: "LogCall list"

definition newProgressReporter :: ProgressReporter where
  "newProgressReporter = \<lparr>progressStates = [], sent = [], reporterLog = []\<rparr>"

definition minUpdateInterval :: int where
  "minUpdateInterval = 100"

definition logR :: "LogCall \<Rightarrow> ProgressReporter \<Rightarrow> ProgressReporter" where
  "logR l rp = rp\<lparr>reporterLog := reporterLog rp @ [l]\<rparr>"

text \<open>\<open>ProgressReporter.cleanup(progressToken)\<close>.\<close>

definition cleanupProgress :: "Key \<Rightarrow> ProgressReporter \<Rightarrow> ProgressReporter" where
  "cleanupProgress tok rp =
     (case map_of (progressStates rp) tok of
        None \<Rightarrow> rp
      | Some s \<Rightarrow>
          (logR (DEBUG, ''PROGRESS_CLEANUP'') rp)
            \<lparr>progressStates := AList.delete tok (progressStates rp)\<rparr>)"

definition notificationOf :: "Key \<Rightarrow> ProgressUpdate \<Rightarrow> Notification" where
  "notificationOf tok u =
     ProgressNotification tok (progress u) (total u)
       (case ProgressUpdate.message u of
          None \<Rightarrow> None
        | Some m \<Rightarrow> if m = [] then None else Some m)"

text \<open>\<open>update.total !== undefined && update.progress >= update.total\<close>.\<close>

definition reachesTotal :: "ProgressUpdate \<Rightarrow> bool" where
  "reachesTotal u = (case total u of None \<Rightarrow> False | Some tt \<Rightarrow> numLe tt (progress u))"

text \<open>
  \<open>report(progressToken, update)\<close> is an asynchronous function with one \<open>await\<close>,
  on \<open>server.notification\<close>. \<open>reportBegin\<close> is what runs before it: the three
  checks, against the tracker and the progress state as they are when the call starts, with
  \<open>now\<close> the value of \<open>Date.now()\<close>. A call that fails a check logs and returns
  (\<open>None\<close>); one that passes them all hands its notification to the sink and is
  suspended with its local variables \<open>progressToken\<close>, \<open>update\<close>, \<open>state\<close> and
  \<open>now\<close>, having written nothing.
\<close>

datatype ReportFrame = ReportFrame Key ProgressUpdate "ProgressState option" int

definition reportBegin ::
  "RequestTracker \<Rightarrow> int \<Rightarrow> Key \<Rightarrow> ProgressUpdate \<Rightarrow> ProgressReporter
     \<Rightarrow> ReportFrame option \<times> ProgressReporter" where
  "reportBegin tracker now tok u rp =
     (if \<not> isProgressTokenActive tracker tok
      then (None, logR (DEBUG, ''PROGRESS_TOKEN_INACTIVE'') rp)
      else
        let state = map_of (progressStates rp) tok in
        if (case state of None \<Rightarrow> False | Some s \<Rightarrow> numLe (progress u) (lastProgress s))
        then (None, logR (WARN, ''PROGRESS_NOT_INCREASING'') rp)
        else if (case state of None \<Rightarrow> False
                 | Some s \<Rightarrow> now - lastUpdateTime s < minUpdateInterval)
        then (None, logR (DEBUG, ''PROGRESS_RATE_LIMITED'') rp)
        else (Some (ReportFrame tok u state now), rp))"

text \<open>
  \<open>reportEnd\<close> is what runs after the \<open>await\<close>, on the reporter as it is by then;
  \<open>sinkOk\<close> tells whether \<open>server.notification\<close> resolved (\<open>True\<close>) or threw.
  When it resolved, the state of the channel is overwritten from the local variables of the
  call, \<open>updateCount\<close> from the \<open>state\<close> read before the \<open>await\<close>, and deleted
  again when the update reaches its total; when it threw, the \<open>catch\<close> branch logs. The
  tracker is read once more in between, for the fields of the log line only.
\<close>

fun reportEnd :: "bool \<Rightarrow> ReportFrame \<Rightarrow> ProgressReporter \<Rightarrow> ProgressReporter" where
  "reportEnd sinkOk (ReportFrame tok u state now) rp =
     (if \<not> sinkOk
      then logR (ERROR, ''PROGRESS_REPORT_ERROR'') rp
      else
        let rp1 = rp\<lparr>sent := sent rp @ [notificationOf tok u]\<rparr>;
            rp2 = rp1\<lparr>progressStates :=
                        AList.update tok
                          \<lparr>lastProgress = progress u, lastUpdateTime = now,
                           updateCount = (case state of None \<Rightarrow> 0 | Some s \<Rightarrow> updateCount s) + 1\<rparr>
                          (progressStates rp1)\<rparr>;
            rp3 = logR (INFO, ''PROGRESS_REPORTED'') rp2
        in if reachesTotal u then cleanupProgress tok rp3 else rp3)"

text \<open>A \<open>report\<close> call that is awaited while nothing else touches the reporter.\<close>

definition report ::
  "RequestTracker \<Rightarrow> int \<Rightarrow> bool \<Rightarrow> Key \<Rightarrow> ProgressUpdate \<Rightarrow> ProgressReporter \<Rightarrow> ProgressReporter" where
  "report tracker now sinkOk tok u rp =
     (case reportBegin tracker now tok u rp of
        (None, rp1) \<Rightarrow> rp1
      | (Some frame, rp1) \<Rightarrow> reportEnd sinkOk frame rp1)"

text \<open>A sequence of \<open>report\<close> calls, each awaited before the next one starts.\<close>

datatype ReportCall = Report RequestTracker int bool Key ProgressUpdate

fun callToken :: "ReportCall \<Rightarrow> Key" where
  "callToken (Report tracker now sinkOk tok u) = tok"

fun callUpdate :: "ReportCall \<Rightarrow> ProgressUpdate" where
  "callUpdate (Report tracker now sinkOk tok u) = u"

fun reportAll :: "ReportCall list \<Rightarrow> ProgressReporter \<Rightarrow> ProgressReporter" where
  "reportAll [] rp = rp"
| "reportAll (Report tracker now sinkOk tok u # cs) rp =
     reportAll cs (report tracker now sinkOk tok u rp)"

text \<open>
  The reporter on the event loop, for calls that are not awaited one by one.
  \<open>suspended\<close> lists the calls that wait at their \<open>await\<close>, oldest first, and
  \<open>handed\<close> the notifications passed to \<open>server.notification\<close>, in the order of
  the calls. \<open>StartReport\<close> is the start of a \<open>report\<close> call; \<open>Resume i sinkOk\<close>
  resumes the \<open>i\<close>-th suspended call with the outcome of its notification.
\<close>

record Reporting =
  reporter :: ProgressReporter
  suspended :: "ReportFrame list"
  handed :: "Notification list"

datatype ReportStep = StartReport RequestTracker int Key ProgressUpdate | Resume nat bool

fun stepReport :: "ReportStep \<Rightarrow> Reporting \<Rightarrow> Reporting" where
  "stepReport (StartReport tracker now tok u) sys =
     (case reportBegin tracker now tok u (reporter sys) of
        (None, rp1) \<Rightarrow> sys\<lparr>reporter := rp1\<rparr>
      | (Some frame, rp1) \<Rightarrow>
          sys\<lparr>reporter := rp1, suspended := suspended sys @ [frame],
              handed := handed sys @ [notificationOf tok u]\<rparr>)"
| "stepReport (Resume i sinkOk) sys =
     (if i < length (suspended sys)
      then sys\<lparr>reporter := reportEnd sinkOk (suspended sys ! i) (reporter sys),
               suspended := take i (suspended sys) @ drop (Suc i) (suspended sys)\<rparr>
      else sys)"

fun runReports :: "ReportStep list \<Rightarrow> Reporting \<Rightarrow> Reporting" where
  "runReports [] sys = sys"
| "runReports (x # xs) sys = runReports xs (stepReport x sys)"

text \<open>The progress values emitted on a channel, in the order of emission.\<close>

definition emitted :: "Key \<Rightarrow> ProgressReporter \<Rightarrow> Number list" where
  "emitted tok rp = map notifiedProgress (filter (\<lambda>n. notifiedToken n = tok) (sent rp))"

section \<open>Log shipper (log-shipper.ts)\<close>

subsection \<open>Records and configuration\<close>

text \<open>
  The values of the free-form \<open>metadata\<close> are told apart as far as
  \<open>cleanMetadata\<close> and \<open>JSON.stringify\<close> look at them: \<open>undefined\<close>, a
  function, a \<open>bigint\<close>, an object (with whether \<open>JSON.stringify\<close> accepts it, and
  its \<open>String(value)\<close>, or \<open>None\<close> when that conversion throws), or anything
  else, which is kept as it is and serializes.
\<close>

datatype MetaValue =
    MetaUndefined
  | MetaFunction
  | MetaBigInt int
  | MetaObject bool "string option"
  | MetaPlain string

text \<open>
  What reading a property of an object literal can give: a string of the literal, or a
  property the literal inherits from \<open>Object.prototype\<close>, which is a function (here
  with its name) or, under \<open>__proto__\<close>, the prototype object itself.
\<close>

datatype JsValue = JsString string | JsFunction string | ObjectPrototype

text \<open>
  The fields of \<open>LogEntry\<close> with their TypeScript types; an optional field is an
  \<open>option\<close>. TypeScript gives the type \<open>LogEntry\<close> to the entries that callers
  queue and to the records that normalization builds from them. In the latter \<open>level\<close>
  and \<open>component\<close> hold whatever the lookup in a table returned, so the type of these
  two fields is a parameter: \<open>string\<close> for queued entries, \<open>JsValue\<close> for
  normalized records.
\<close>

record 'v LogEntry =
  timestamp :: string
  level :: 'v
  sessionId :: string
  user :: string
  integration :: string
  component :: 'v
  action :: string
  message :: string
  serverName :: string
  projectId :: "string option"
  organizationId :: "string option"
  metadata :: "(string \<times> MetaValue) list option"

record LogShipperConfig =
  endpoint :: string
  apiKey :: "string option"
  requireApiKey :: "bool option"
  batchSize :: int
  flushInterval :: int
  maxRetries :: int
  enabled :: bool

text \<open>
  The state of a \<open>LogShipper\<close> object. \<open>flushTimer\<close> holds the period of the running
  interval timer, or \<open>None\<close> for \<open>null\<close>.
\<close>

record LogShipper =
  config :: LogShipperConfig
  logQueue :: "string LogEntry list"
  flushTimer :: "int option"
  isShuttingDown :: bool
  lastSuccessfulFlush :: int

text \<open>
  What the shipper does to the outside: a line written by \<open>logLocally\<close> (level and
  message), an HTTPS POST (endpoint, the \<open>X-API-Key\<close> header when there is one, and
  the \<open>logs\<close> of the payload that \<open>JSON.stringify\<close> turns into the body), and a
  pause of the retry loop in milliseconds.
\<close>

datatype Effect =
    LogLocally string string
  | Post string "string option" "JsValue LogEntry list"
  | Sleep nat

text \<open>JavaScript's \<open>a || b\<close> on strings: the empty string is falsy, and so is \<open>undefined\<close>.\<close>

definition orElse :: "string \<Rightarrow> string \<Rightarrow> string" where
  "orElse a b = (if a \<noteq> [] then a else b)"

definition optStr :: "string option \<Rightarrow> string" where
  "optStr a = (case a of None \<Rightarrow> [] | Some s \<Rightarrow> s)"

definition hasApiKey :: "LogShipperConfig \<Rightarrow> bool" where
  "hasApiKey cfg = (optStr (apiKey cfg) \<noteq> [])"

definition startsWith :: "string \<Rightarrow> string \<Rightarrow> bool" where
  "startsWith p s = (take (length p) s = p)"

subsection \<open>Construction\<close>

text \<open>
  \<open>validateConfig\<close> and the constructor. A thrown \<open>Error\<close> is \<open>Inl\<close> of its message;
  the lines written before the throw are returned with it.
\<close>

definition validateConfig :: "LogShipperConfig \<Rightarrow> Effect list \<times> (string + unit)" where
  "validateConfig cfg =
     (if endpoint cfg = [] then ([], Inl ''LogShipper: endpoint is required'')
      else if requireApiKey cfg = Some True \<and> \<not> hasApiKey cfg
      then ([], Inl ''LogShipper: apiKey is required when requireApiKey is true'')
      else
        let warned =
              (if \<not> hasApiKey cfg \<and> requireApiKey cfg \<noteq> Some True
               then [LogLocally ''WARN''
                       ''API key not configured. Log shipping will work now but will require an API key in the future.'']
               else [])
        in if \<not> startsWith ''https://'' (endpoint cfg)
           then (warned, Inl ''LogShipper: endpoint must use HTTPS'')
           else (warned, Inr ()))"

definition newLogShipper :: "LogShipperConfig \<Rightarrow> Effect list \<times> (string + LogShipper)" where
  "newLogShipper cfg =
     (let s0 = \<lparr>config = cfg, logQueue = [], flushTimer = None, isShuttingDown = False,
                lastSuccessfulFlush = 0\<rparr>
      in if \<not> enabled cfg then ([], Inr s0)
         else
           (case validateConfig cfg of
              (fx, Inl msg) \<Rightarrow> (fx, Inl msg)
            | (fx, Inr u) \<Rightarrow>
                (fx @ [LogLocally ''INFO'' ''LogShipper initialized''],
                 Inr (s0\<lparr>flushTimer := Some (flushInterval cfg)\<rparr>))))"

subsection \<open>Normalization\<close>

text \<open>
  \<open>toLowerCase\<close> on the ASCII letters, which is all that the keys of the tables need.
\<close>

definition toLowerChar :: "char \<Rightarrow> char" where
  "toLowerChar c =
     (case map_of (zip ''ABCDEFGHIJKLMNOPQRSTUVWXYZ'' ''abcdefghijklmnopqrstuvwxyz'') c of
        None \<Rightarrow> c
      | Some l \<Rightarrow> l)"

definition toLowerCase :: "string \<Rightarrow> string" where
  "toLowerCase s = map toLowerChar s"

text \<open>
  The two tables are object literals used as dictionaries. \<open>table[key]\<close> gives the
  string under an own key, and under any other key what the literal inherits from
  \<open>Object.prototype\<close>: the function \<open>Object\<close> under \<open>constructor\<close>, the
  prototype itself under \<open>__proto__\<close>, and the methods of the prototype under their
  names; \<open>None\<close> is \<open>undefined\<close>.
\<close>

definition objectPrototype :: "(string \<times> JsValue) list" where
  "objectPrototype =
     [(''constructor'', JsFunction ''Object''), (''__proto__'', ObjectPrototype),
      (''hasOwnProperty'', JsFunction ''hasOwnProperty''),
      (''isPrototypeOf'', JsFunction ''isPrototypeOf''),
      (''propertyIsEnumerable'', JsFunction ''propertyIsEnumerable''),
      (''toLocaleString'', JsFunction ''toLocaleString''),
      (''toString'', JsFunction ''toString''), (''valueOf'', JsFunction ''valueOf''),
      (''__defineGetter__'', JsFunction ''__defineGetter__''),
      (''__defineSetter__'', JsFunction ''__defineSetter__''),
      (''__lookupGetter__'', JsFunction ''__lookupGetter__''),
      (''__lookupSetter__'', JsFunction ''__lookupSetter__'')]"

definition getProperty :: "(string \<times> string) list \<Rightarrow> string \<Rightarrow> JsValue option" where
  "getProperty table key =
     (case map_of table key of
        Some v \<Rightarrow> Some (JsString v)
      | None \<Rightarrow> map_of objectPrototype key)"

text \<open>
  Truthiness of such a value, and \<open>mapped || 'info'\<close>: functions and objects are
  truthy, so they are returned as they are.
\<close>

fun truthyValue :: "JsValue \<Rightarrow> bool" where
  "truthyValue (JsString s) = (s \<noteq> [])"
| "truthyValue (JsFunction n) = True"
| "truthyValue ObjectPrototype = True"

definition valueOr :: "JsValue option \<Rightarrow> string \<Rightarrow> JsValue" where
  "valueOr mapped d =
     (case mapped of
        None \<Rightarrow> JsString d
      | Some v \<Rightarrow> if truthyValue v then v else JsString d)"

definition componentMap :: "(string \<times> string) list" where
  "componentMap =
     [(''server'', ''client''), (''client'', ''client''), (''tools'', ''tools''),
      (''oauth-client'', ''oauth-client'')]"

definition mapComponentToValidEnum :: "string \<Rightarrow> JsValue" where
  "mapComponentToValidEnum c =
     (let componentStr = orElse c ''client'' in
      valueOr (getProperty componentMap (toLowerCase componentStr)) ''client'')"

definition validLevels :: "string list" where
  "validLevels = [''info'', ''error'', ''warn'', ''debug'']"

definition levelMap :: "(string \<times> string) list" where
  "levelMap =
     [(''info'', ''info''), (''error'', ''error''), (''warn'', ''warn''),
      (''warning'', ''warn''), (''debug'', ''debug''), (''fatal'', ''error'')]"

definition mapLogLevelToValidEnum :: "string \<Rightarrow> JsValue" where
  "mapLogLevelToValidEnum l =
     (let levelStr = orElse l ''info'' in
      valueOr (getProperty levelMap (toLowerCase levelStr)) ''info'')"

text \<open>
  \<open>cleanMetadata\<close>, field by field: an \<open>undefined\<close> value is skipped, a function
  becomes the string \<open>[Function]\<close>, an object that \<open>JSON.stringify\<close> refuses
  becomes its \<open>String(value)\<close>, and when that conversion throws the field is skipped
  with a warning; everything else is kept, a \<open>bigint\<close> too. \<open>skippedFields\<close> are
  the warnings, in the order of the fields.
\<close>

fun cleanMetadata :: "(string \<times> MetaValue) list \<Rightarrow> (string \<times> MetaValue) list" where
  "cleanMetadata [] = []"
| "cleanMetadata ((k, MetaUndefined) # kvs) = cleanMetadata kvs"
| "cleanMetadata ((k, MetaFunction) # kvs) = (k, MetaPlain ''[Function]'') # cleanMetadata kvs"
| "cleanMetadata ((k, MetaBigInt n) # kvs) = (k, MetaBigInt n) # cleanMetadata kvs"
| "cleanMetadata ((k, MetaObject serializable str) # kvs) =
     (if serializable then (k, MetaObject serializable str) # cleanMetadata kvs
      else (case str of
              Some s \<Rightarrow> (k, MetaPlain s) # cleanMetadata kvs
            | None \<Rightarrow> cleanMetadata kvs))"
| "cleanMetadata ((k, MetaPlain v) # kvs) = (k, MetaPlain v) # cleanMetadata kvs"

fun skippedFields :: "(string \<times> MetaValue) list \<Rightarrow> Effect list" where
  "skippedFields [] = []"
| "skippedFields ((k, MetaObject serializable str) # kvs) =
     (if \<not> serializable \<and> str = None
      then LogLocally ''WARN'' ''Skipping problematic metadata field'' # skippedFields kvs
      else skippedFields kvs)"
| "skippedFields ((k, v) # kvs) = skippedFields kvs"

text \<open>
  What normalization reads from outside the record: \<open>new Date().toISOString()\<close>, the
  result of the \<open>i\<close>-th call of \<open>generateSessionId()\<close>, and three environment variables.
\<close>

record Env =
  nowISO :: string
  generateSessionId :: "nat \<Rightarrow> string"
  CORETEXT_USER :: "string option"
  PROJECT_ID :: "string option"
  ORGANIZATION_ID :: "string option"

definition cleanLog :: "Env \<Rightarrow> nat \<Rightarrow> string LogEntry \<Rightarrow> JsValue LogEntry" where
  "cleanLog env i entry =
     \<lparr>timestamp = orElse (timestamp entry) (nowISO env),
      level = mapLogLevelToValidEnum (orElse (level entry) ''info''),
      sessionId = orElse (sessionId entry) (generateSessionId env i),
      user = orElse (user entry) (orElse (optStr (CORETEXT_USER env)) ''unknown''),
      integration = orElse (integration entry) ''unknown'',
      component = mapComponentToValidEnum (orElse (component entry) ''client''),
      action = orElse (action entry) ''unknown'',
      message = orElse (message entry) ''No message'',
      serverName = orElse (serverName entry) ''notion-mcp'',
      projectId = Some (orElse (optStr (projectId entry)) (orElse (optStr (PROJECT_ID env)) [])),
      organizationId =
        Some (orElse (optStr (organizationId entry)) (orElse (optStr (ORGANIZATION_ID env)) [])),
      metadata = (case metadata entry of None \<Rightarrow> None | Some m \<Rightarrow> Some (cleanMetadata m))\<rparr>"

text \<open>The test of the final \<open>filter\<close>: the four fields are truthy.\<close>

definition stillValid :: "JsValue LogEntry \<Rightarrow> bool" where
  "stillValid entry =
     (timestamp entry \<noteq> [] \<and> truthyValue (level entry) \<and> user entry \<noteq> [] \<and>
      message entry \<noteq> [])"

definition validateAndCleanLogs :: "Env \<Rightarrow> string LogEntry list \<Rightarrow> JsValue LogEntry list" where
  "validateAndCleanLogs env logs =
     filter stillValid (map (\<lambda>(i, entry). cleanLog env i entry) (enumerate 0 logs))"

text \<open>The warnings that normalizing a batch writes, entry by entry.\<close>

definition cleaningWarnings :: "string LogEntry list \<Rightarrow> Effect list" where
  "cleaningWarnings logs =
     concat (map (\<lambda>entry. case metadata entry of None \<Rightarrow> [] | Some m \<Rightarrow> skippedFields m) logs)"

subsection \<open>Delivery\<close>

text \<open>
  What \<open>fetch\<close> does on one attempt: it rejects (a network error), or it resolves with a
  response, of which the code reads the status and, when the status is 2xx, parses the body
  (\<open>response.json()\<close>, which rejects when the body is not JSON).
\<close>

datatype FetchResult = NetworkError | Response nat bool

text \<open>
  \<open>JSON.stringify(payload)\<close> throws a \<open>TypeError\<close> when a value of the metadata
  is a \<open>bigint\<close>. In the text it writes, a field holding a string is that string, a
  field holding a function is left out (\<open>None\<close>), and the prototype object, which has
  no enumerable property of its own, is written as \<open>{}\<close>.
\<close>

fun isBigInt :: "MetaValue \<Rightarrow> bool" where
  "isBigInt (MetaBigInt n) = True"
| "isBigInt v = False"

definition hasBigInt :: "'v LogEntry \<Rightarrow> bool" where
  "hasBigInt entry =
     (case metadata entry of None \<Rightarrow> False | Some m \<Rightarrow> list_ex (\<lambda>(k, v). isBigInt v) m)"

datatype Json = JsonString string | JsonEmptyObject

fun stringified :: "JsValue \<Rightarrow> Json option" where
  "stringified (JsString s) = Some (JsonString s)"
| "stringified (JsFunction n) = None"
| "stringified ObjectPrototype = Some JsonEmptyObject"

text \<open>
  The errors \<open>sendLogs\<close> throws. Those built from a response carry its status in
  \<open>error.status\<close>; the others carry none.
\<close>

datatype ShipError =
    AuthRequired nat
  | BadRequest
  | HttpError nat
  | FetchFailed
  | InvalidJson
  | NotSerializable

fun errorStatus :: "ShipError \<Rightarrow> nat option" where
  "errorStatus (AuthRequired st) = Some st"
| "errorStatus BadRequest = Some 400"
| "errorStatus (HttpError st) = Some st"
| "errorStatus FetchFailed = None"
| "errorStatus InvalidJson = None"
| "errorStatus NotSerializable = None"

text \<open>
  \<open>sendLogs\<close>, one attempt. The payload is serialized for the first time in the
  arguments of the debug line, before \<open>fetch\<close> is called: when that throws, nothing is
  written and nothing is posted.
\<close>

definition sendLogs ::
  "LogShipperConfig \<Rightarrow> Env \<Rightarrow> FetchResult \<Rightarrow> string LogEntry list
     \<Rightarrow> Effect list \<times> (ShipError + unit)" where
  "sendLogs cfg env res logs =
     (let cleanedLogs = validateAndCleanLogs env logs;
          warned = cleaningWarnings logs
      in if list_ex hasBigInt cleanedLogs then (warned, Inl NotSerializable)
         else
           let sending =
                 warned @
                 [LogLocally ''DEBUG'' ''Sending log payload'',
                  Post (endpoint cfg) (if hasApiKey cfg then apiKey cfg else None) cleanedLogs]
           in case res of
                NetworkError \<Rightarrow> (sending, Inl FetchFailed)
              | Response status json \<Rightarrow>
                  if 200 \<le> status \<and> status \<le> 299
                  then (sending, if json then Inr () else Inl InvalidJson)
                  else
                    (sending @
                       [LogLocally ''ERROR'' ''HTTP error response from log ingestion API''],
                     Inl (if (status = 401 \<or> status = 403) \<and> \<not> hasApiKey cfg
                          then AuthRequired status
                          else if status = 400 then BadRequest
                          else HttpError status)))"

text \<open>
  \<open>status >= 400 && status < 500 && status !== 429\<close>, with \<open>status\<close> the value of
  \<open>error.status || error.response?.status\<close>: an absent status compares false.
\<close>

definition clientError :: "nat option \<Rightarrow> bool" where
  "clientError status =
     (case status of None \<Rightarrow> False | Some st \<Rightarrow> 400 \<le> st \<and> st < 500 \<and> st \<noteq> 429)"

text \<open>
  The loop of \<open>sendLogsWithRetry\<close> from a given value of \<open>attempt\<close>. \<open>world n\<close> gives
  what the \<open>n\<close>-th attempt meets: the environment of its normalization and the outcome
  of its \<open>fetch\<close>.
\<close>

function sendLogsFrom ::
  "LogShipperConfig \<Rightarrow> (nat \<Rightarrow> Env \<times> FetchResult) \<Rightarrow> string LogEntry list \<Rightarrow> nat
     \<Rightarrow> Effect list \<times> (ShipError + unit)" where
  "sendLogsFrom cfg world logs attempt =
     (if int attempt \<le> maxRetries cfg
      then
        (case sendLogs cfg (fst (world attempt)) (snd (world attempt)) logs of
           (fx, Inr u) \<Rightarrow> (fx, Inr ())
         | (fx, Inl err) \<Rightarrow>
             let status = errorStatus err in
             if clientError status
             then (fx @ [LogLocally ''ERROR'' ''Client error - not retrying''], Inl err)
             else if int attempt = maxRetries cfg
             then (fx @ [LogLocally ''ERROR'' ''Max retries exceeded''], Inl err)
             else
               let baseDelay = (if status = Some 429 then 1000 else 500);
                   delay = baseDelay * 2 ^ (attempt - 1);
                   rest = sendLogsFrom cfg world logs (Suc attempt)
               in (fx @ [LogLocally ''WARN'' ''Retrying log shipment'', Sleep delay] @ fst rest,
                   snd rest))
      else ([], Inr ()))"
  by pat_completeness auto
termination
  by (relation "measure (\<lambda>(cfg, world, logs, attempt). nat (maxRetries cfg + 1 - int attempt))") auto

definition sendLogsWithRetry ::
  "LogShipperConfig \<Rightarrow> (nat \<Rightarrow> Env \<times> FetchResult) \<Rightarrow> string LogEntry list
     \<Rightarrow> Effect list \<times> (ShipError + unit)" where
  "sendLogsWithRetry cfg world logs = sendLogsFrom cfg world logs 1"

subsection \<open>Queue and flush\<close>

text \<open>
  \<open>flush\<close> is an asynchronous function with one \<open>await\<close>. \<open>flushBegin\<close> is what
  runs before it: the guard and the \<open>splice\<close>, which takes \<open>batchSize\<close> entries from
  the head (none when \<open>batchSize\<close> is not positive). \<open>None\<close> is the early return.
  \<open>flushEnd\<close> is what runs after it, on the shipper as it is by then: the \<open>try\<close> branch
  when the delivery resolved, the \<open>catch\<close> branch, which rethrows, when it rejected.
\<close>

definition flushBegin :: "LogShipper \<Rightarrow> (string LogEntry list \<times> LogShipper) option" where
  "flushBegin s =
     (if \<not> enabled (config s) \<or> logQueue s = [] then None
      else Some (take (nat (batchSize (config s))) (logQueue s),
                 s\<lparr>logQueue := drop (nat (batchSize (config s))) (logQueue s)\<rparr>))"

definition flushEnd ::
  "int \<Rightarrow> string LogEntry list \<Rightarrow> ShipError + unit \<Rightarrow> LogShipper
     \<Rightarrow> Effect list \<times> (ShipError + unit) \<times> LogShipper" where
  "flushEnd now batch outcome s =
     (case outcome of
        Inr u \<Rightarrow>
          ([LogLocally ''DEBUG'' ''Logs shipped successfully''], Inr (),
           s\<lparr>lastSuccessfulFlush := now\<rparr>)
      | Inl err \<Rightarrow>
          ([LogLocally ''ERROR'' ''Failed to ship logs after retries''], Inl err,
           s\<lparr>logQueue := batch @ logQueue s\<rparr>))"

text \<open>A \<open>flush\<close> that is awaited while nothing else touches the shipper.\<close>

definition flush ::
  "(nat \<Rightarrow> Env \<times> FetchResult) \<Rightarrow> int \<Rightarrow> LogShipper
     \<Rightarrow> Effect list \<times> (ShipError + unit) \<times> LogShipper" where
  "flush world now s =
     (case flushBegin s of
        None \<Rightarrow> ([], Inr (), s)
      | Some (batch, s1) \<Rightarrow>
          (case sendLogsWithRetry (config s) world batch of
             (fx, outcome) \<Rightarrow>
               (case flushEnd now batch outcome s1 of
                  (fx', result, s2) \<Rightarrow> (fx @ fx', result, s2))))"

text \<open>
  The shipper on the event loop. Between \<open>flushBegin\<close> and \<open>flushEnd\<close> a \<open>flush\<close>
  call is suspended with its batch while its delivery is under way; \<open>outstanding\<close> lists
  the batches of the suspended calls, oldest first. The steps are the calls that can run in
  between: \<open>callFlush\<close> is the start of a \<open>flush()\<close> call, by the timer or by anyone
  else; \<open>addLog\<close> is the method of that name, which starts a \<open>flush\<close> of its own when
  the queue has reached \<open>batchSize\<close>; \<open>settle i\<close> ends the \<open>i\<close>-th suspended call with
  the outcome of its delivery.
\<close>

record Running =
  shipper :: LogShipper
  outstanding :: "string LogEntry list list"

definition callFlush :: "Running \<Rightarrow> Running" where
  "callFlush sys =
     (case flushBegin (shipper sys) of
        None \<Rightarrow> sys
      | Some (batch, s1) \<Rightarrow> sys\<lparr>shipper := s1, outstanding := outstanding sys @ [batch]\<rparr>)"

definition addLog :: "string LogEntry \<Rightarrow> Running \<Rightarrow> Running" where
  "addLog logEntry sys =
     (let s = shipper sys in
      if \<not> enabled (config s) \<or> isShuttingDown s then sys
      else
        let sys1 = sys\<lparr>shipper := s\<lparr>logQueue := logQueue s @ [logEntry]\<rparr>\<rparr>
        in if int (length (logQueue (shipper sys1))) \<ge> batchSize (config s)
           then callFlush sys1
           else sys1)"

definition settle ::
  "nat \<Rightarrow> (nat \<Rightarrow> Env \<times> FetchResult) \<Rightarrow> int \<Rightarrow> Running \<Rightarrow> (ShipError + unit) \<times> Running" where
  "settle i world now sys =
     (if i < length (outstanding sys)
      then
        let batch = outstanding sys ! i;
            outcome = snd (sendLogsWithRetry (config (shipper sys)) world batch)
        in (case flushEnd now batch outcome (shipper sys) of
              (fx, result, s2) \<Rightarrow>
                (result,
                 sys\<lparr>shipper := s2,
                      outstanding := take i (outstanding sys) @ drop (Suc i) (outstanding sys)\<rparr>))
      else (Inr (), sys))"

datatype Step = AddLog "string LogEntry" | CallFlush | Settle nat "nat \<Rightarrow> Env \<times> FetchResult" int

fun step :: "Step \<Rightarrow> Running \<Rightarrow> Running" where
  "step (AddLog e) sys = addLog e sys"
| "step CallFlush sys = callFlush sys"
| "step (Settle i world now) sys = snd (settle i world now sys)"

fun run :: "Step list \<Rightarrow> Running \<Rightarrow> Running" where
  "run [] sys = sys"
| "run (x # xs) sys = run xs (step x sys)"

section \<open>Notions used in the statements\<close>

text \<open>
  A holder of a context calls \<open>context.abortController.abort(reason)\<close> itself, as the
  tests of \<open>isActive\<close> and \<open>isProgressTokenActive\<close> do.
\<close>

definition abortThrough :: "nat \<Rightarrow> string option \<Rightarrow> RequestTracker \<Rightarrow> RequestTracker" where
  "abortThrough r rsn t =
     (case contexts t r of None \<Rightarrow> t | Some ctx \<Rightarrow> abortAt (abortController ctx) rsn t)"

text \<open>
  What the tracker's own operations keep true of its maps and heaps: ids and references
  are not repeated, every registered request has its context, allocated, with a handle that
  is not cancelled, and the controller of a context has the context's own index.
\<close>

definition trackerInv :: "RequestTracker \<Rightarrow> bool" where
  "trackerInv t =
     (distinct (map fst (activeRequests t)) \<and> distinct (map snd (activeRequests t)) \<and>
      list_all (\<lambda>(rid, r). r < nextRef t \<and> contexts t r \<noteq> None \<and> \<not> aborted (controllers t r))
        (activeRequests t) \<and>
      (\<forall>r ctx. contexts t r = Some ctx \<longrightarrow> abortController ctx = r))"

text \<open>
  \<open>a < b\<close> on JavaScript numbers, for the statements; the code itself only uses
  \<open><=\<close> and \<open>>=\<close>.
\<close>

definition numLt :: "Number \<Rightarrow> Number \<Rightarrow> bool" where
  "numLt a b = (numLe a b \<and> \<not> numLe b a)"

text \<open>
  A \<open>report\<close> call reaches \<open>server.notification\<close> when it passes the three checks:
  the token is active, and against prior state, if there is any, the progress is not less
  than or equal to the last one and the minimum interval has elapsed.
\<close>

definition passes ::
  "RequestTracker \<Rightarrow> int \<Rightarrow> Key \<Rightarrow> ProgressUpdate \<Rightarrow> ProgressReporter \<Rightarrow> bool" where
  "passes tracker now tok u rp =
     (isProgressTokenActive tracker tok \<and>
      (case map_of (progressStates rp) tok of
         None \<Rightarrow> True
       | Some s \<Rightarrow>
           \<not> numLe (progress u) (lastProgress s) \<and> minUpdateInterval \<le> now - lastUpdateTime s))"

text \<open>
  The notifications emitted on a channel, and the relation between one and the next in
  the statements: the progress went up, or the earlier notification had reached its total.
\<close>

definition emittedOn :: "Key \<Rightarrow> ProgressReporter \<Rightarrow> Notification list" where
  "emittedOn tok rp = filter (\<lambda>n. notifiedToken n = tok) (sent rp)"

fun notifiedComplete :: "Notification \<Rightarrow> bool" where
  "notifiedComplete (ProgressNotification k p tt m) =
     (case tt of None \<Rightarrow> False | Some t \<Rightarrow> numLe t p)"

definition forward :: "Notification \<Rightarrow> Notification \<Rightarrow> bool" where
  "forward a b = (numLt (notifiedProgress a) (notifiedProgress b) \<or> notifiedComplete a)"

text \<open>
  The steps of a call that is awaited before anything else happens to the reporter: it
  starts, and it is resumed as the only suspended call.
\<close>

fun awaited :: "ReportCall \<Rightarrow> ReportStep list" where
  "awaited (Report tracker now sinkOk tok u) = [StartReport tracker now tok u, Resume 0 sinkOk]"

text \<open>The two invariants of a channel that the proofs carry through a run of calls.\<close>

definition chanInv :: "Key \<Rightarrow> ProgressReporter \<Rightarrow> bool" where
  "chanInv tok rp =
     (sorted_wrt numLt (emitted tok rp) \<and>
      (case map_of (progressStates rp) tok of
         None \<Rightarrow> emitted tok rp = []
       | Some s \<Rightarrow> list_all (\<lambda>x. numLe x (lastProgress s)) (emitted tok rp)))"

definition stepInv :: "Key \<Rightarrow> ProgressReporter \<Rightarrow> bool" where
  "stepInv tok rp =
     (successively forward (emittedOn tok rp) \<and>
      (emittedOn tok rp = [] \<or>
       (case map_of (progressStates rp) tok of
          None \<Rightarrow> notifiedComplete (last (emittedOn tok rp))
        | Some s \<Rightarrow>
            lastProgress s = notifiedProgress (last (emittedOn tok rp)) \<and>
            lastProgress s \<noteq> NaN)))"

text \<open>
  The outcomes of \<open>fetch\<close> that the specification calls retryable (HTTP 5xx, 429, or a
  network error) and non-retryable (a status in [400,500) other than 429), in its words, and
  the delay it gives for a retryable failure on attempt \<open>n\<close>.
\<close>

fun retryableFailure :: "FetchResult \<Rightarrow> bool" where
  "retryableFailure NetworkError = True"
| "retryableFailure (Response st json) = (st = 429 \<or> (500 \<le> st \<and> st \<le> 599))"

fun nonRetryable :: "FetchResult \<Rightarrow> bool" where
  "nonRetryable NetworkError = False"
| "nonRetryable (Response st json) = (400 \<le> st \<and> st < 500 \<and> st \<noteq> 429)"

fun backoff :: "FetchResult \<Rightarrow> nat \<Rightarrow> nat" where
  "backoff (Response st json) n = (if st = 429 then 1000 else 500) * 2 ^ (n - 1)"
| "backoff NetworkError n = 500 * 2 ^ (n - 1)"

text \<open>
  A level that, lower-cased, is the name of a property that the table inherits: of the
  property names of \<open>Object.prototype\<close>, \<open>constructor\<close> and \<open>__proto__\<close> are
  the two without an upper-case letter.
\<close>

definition inheritedLevel :: "string \<Rightarrow> bool" where
  "inheritedLevel l =
     (toLowerCase (orElse l ''info'') = ''constructor'' \<or>
      toLowerCase (orElse l ''info'') = ''__proto__'')"

text \<open>The pauses and the posted batches of a list of effects, in order.\<close>

fun sleeps :: "Effect list \<Rightarrow> nat list" where
  "sleeps [] = []"
| "sleeps (Sleep d # fx) = d # sleeps fx"
| "sleeps (LogLocally l m # fx) = sleeps fx"
| "sleeps (Post e k ls # fx) = sleeps fx"

fun posts :: "Effect list \<Rightarrow> JsValue LogEntry list list" where
  "posts [] = []"
| "posts (Post e k ls # fx) = ls # posts fx"
| "posts (LogLocally l m # fx) = posts fx"
| "posts (Sleep d # fx) = posts fx"

section \<open>Examples\<close>

text \<open>
  A tracker for the examples: \<open>req-1\<close> registered at time 1000 with the token
  \<open>tok-1\<close>. Its context and its controller are at reference 0.
\<close>

abbreviation tracked :: RequestTracker where
  "tracked \<equiv>
     snd (registerRequest (StrKey ''req-1'') (Some (StrKey ''tok-1'')) (Some ''notion_search'') 1000
            newRequestTracker)"

text \<open>
  The examples report on \<open>tok-1\<close>, the token of the request registered in
  \<open>tracked\<close>, with a total of 100. \<open>halfway\<close> is the reporter after progress 0 at
  time 0 and progress 50 at time 150, both accepted.
\<close>

abbreviation upd :: "real \<Rightarrow> ProgressUpdate" where
  "upd p \<equiv>
     \<lparr>progress = Finite p, total = Some (Finite 100), ProgressUpdate.message = None\<rparr>"

abbreviation started :: ProgressReporter where
  "started \<equiv> report tracked 0 True (StrKey ''tok-1'') (upd 0) newProgressReporter"

abbreviation halfway :: ProgressReporter where
  "halfway \<equiv> report tracked 150 True (StrKey ''tok-1'') (upd 50) started"

text \<open>
  A configuration, an environment and entries for the examples: the configuration of the
  shipper's tests with a batch size of 2, and the shipper its construction gives.
\<close>

abbreviation testConfig :: LogShipperConfig where
  "testConfig \<equiv>
     \<lparr>endpoint = ''https://logs.example.com/api/logs'', apiKey = Some ''test-api-key'',
      requireApiKey = None, batchSize = 2, flushInterval = 5000, maxRetries = 3,
      enabled = True\<rparr>"

abbreviation testShipper :: LogShipper where
  "testShipper \<equiv>
     \<lparr>config = testConfig, logQueue = [], flushTimer = Some 5000, isShuttingDown = False,
      lastSuccessfulFlush = 0\<rparr>"

abbreviation testEnv :: Env where
  "testEnv \<equiv>
     \<lparr>nowISO = ''2024-01-01T00:00:00.000Z'', generateSessionId = (\<lambda>i. ''notion-mcp-1-abc''),
      CORETEXT_USER = None, PROJECT_ID = None, ORGANIZATION_ID = None\<rparr>"

abbreviation entry :: "string \<Rightarrow> string LogEntry" where
  "entry m \<equiv>
     \<lparr>timestamp = ''2024-01-01T00:00:00.000Z'', level = ''info'', sessionId = ''test-session'',
      user = ''test-user'', integration = ''test'', component = ''client'',
      action = ''test_action'', message = m, serverName = ''test-server'',
      projectId = None, organizationId = None, metadata = None\<rparr>"

text \<open>An entry with a \<open>bigint\<close> in its metadata.\<close>

abbreviation bigEntry :: "string LogEntry" where
  "bigEntry \<equiv> (entry ''big'')\<lparr>metadata := Some [(''count'', MetaBigInt 1)]\<rparr>"

abbreviation answering :: "nat \<Rightarrow> nat \<Rightarrow> Env \<times> FetchResult" where
  "answering status \<equiv> (\<lambda>n. (testEnv, Response status False))"

text \<open>
  A shipper on the event loop for the examples: \<open>a\<close> is queued, a \<open>flush\<close> takes
  it, and \<open>b\<close> is queued while the delivery of \<open>a\<close> is under way.
\<close>

abbreviation midFlush :: Running where
  "midFlush \<equiv>
     run [AddLog (entry ''a''), CallFlush, AddLog (entry ''b'')]
       \<lparr>shipper = testShipper, outstanding = []\<rparr>"

section \<open>Properties of the request tracker\<close>

subsection \<open>How the operations act on the fields\<close>

lemma logT_fields [simp]:
  "activeRequests (logT l t) = activeRequests t"
  "progressTokens (logT l t) = progressTokens t"
  "contexts (logT l t) = contexts t"
  "controllers (logT l t) = controllers t"
  "nextRef (logT l t) = nextRef t"
  "trackerLog (logT l t) = trackerLog t @ [l]"
  by (simp_all add: logT_def)

lemma abortAt_fields [simp]:
  "activeRequests (abortAt a rsn t) = activeRequests t"
  "progressTokens (abortAt a rsn t) = progressTokens t"
  "contexts (abortAt a rsn t) = contexts t"
  "controllers (abortAt a rsn t) = (controllers t)(a := abort rsn (controllers t a))"
  "nextRef (abortAt a rsn t) = nextRef t"
  "trackerLog (abortAt a rsn t) = trackerLog t"
  by (simp_all add: abortAt_def)

lemma getRequest_logT [simp]: "getRequest (logT l t) rid = getRequest t rid"
  by (simp add: getRequest_def logT_def split: option.splits)

lemma getRequest_abortAt [simp]: "getRequest (abortAt a rsn t) rid = getRequest t rid"
  by (simp add: getRequest_def abortAt_def split: option.splits)

lemma getRequest_SomeD:
  "getRequest t rid = Some (r, ctx) \<Longrightarrow> map_of (activeRequests t) rid = Some r \<and> contexts t r = Some ctx"
  by (auto simp: getRequest_def split: option.splits)

lemma map_of_delete_same [simp]: "map_of (AList.delete k al) k = None"
  by (simp add: AList.delete_conv')

lemma getRequest_cleanup_same [simp]: "getRequest (cleanup rid t) rid = None"
  by (auto simp: cleanup_def getRequest_def logT_def Let_def split: option.splits)

lemma controllers_cleanup [simp]: "controllers (cleanup rid t) = controllers t"
  by (auto simp: cleanup_def logT_def Let_def split: option.splits)

lemma contexts_cleanup [simp]: "contexts (cleanup rid t) = contexts t"
  by (auto simp: cleanup_def logT_def Let_def split: option.splits)

lemma nextRef_cleanup [simp]: "nextRef (cleanup rid t) = nextRef t"
  by (auto simp: cleanup_def logT_def Let_def split: option.splits)

lemma activeRequests_cleanup:
  "getRequest t rid = Some (r, ctx) \<Longrightarrow>
   activeRequests (cleanup rid t) = AList.delete rid (activeRequests t)"
  by (auto simp: cleanup_def logT_def Let_def split: option.splits)

lemma progressTokens_cleanup:
  "getRequest t rid = Some (r, ctx) \<Longrightarrow>
   progressTokens (cleanup rid t) =
     (case progressToken ctx of None \<Rightarrow> progressTokens t
      | Some p \<Rightarrow> AList.delete p (progressTokens t))"
  by (auto simp: cleanup_def logT_def Let_def split: option.splits)

lemma cancel_fresh:
  assumes "getRequest t rid = Some (r, ctx)" and "\<not> aborted (controllers t (abortController ctx))"
  shows "cancelRequest rid rsn t =
           (True, cleanup rid (logT (INFO, ''REQUEST_CANCELLED'') (abortAt (abortController ctx) rsn t)))"
  using assms by (simp add: cancelRequest_def)

lemma cancel_absent:
  assumes "getRequest t rid = None"
  shows "cancelRequest rid rsn t = (False, logT (DEBUG, ''CANCEL_REQUEST_NOT_FOUND'') t)"
  using assms by (simp add: cancelRequest_def)

lemma cancel_aborted:
  assumes "getRequest t rid = Some (r, ctx)" and "aborted (controllers t (abortController ctx))"
  shows "cancelRequest rid rsn t = (False, logT (DEBUG, ''CANCEL_REQUEST_ALREADY_ABORTED'') t)"
  using assms by (simp add: cancelRequest_def)

lemma abort_fresh:
  "\<not> aborted c \<Longrightarrow> abort rsn c = c\<lparr>aborted := True,
       reason := Some (case rsn of None \<Rightarrow> AbortError | Some s \<Rightarrow> GivenReason s)\<rparr>"
  by (simp add: abort_def)

lemma register_existing:
  "map_of (activeRequests t) rid = Some r \<Longrightarrow>
   registerRequest rid tok name now t = (r, logT (WARN, ''REQUEST_DUPLICATE'') t)"
  by (simp add: registerRequest_def)

lemma register_tracks:
  "registerRequest rid tok name now t = (r, t1) \<Longrightarrow> map_of (activeRequests t1) rid = Some r"
  by (auto simp: registerRequest_def logT_def Let_def AList.update_conv' split: option.splits)

subsection \<open>What the tracker's own operations preserve\<close>

lemma inv_new: "trackerInv newRequestTracker"
  by (simp add: trackerInv_def newRequestTracker_def)

lemma inv_logT [simp]: "trackerInv (logT l t) = trackerInv t"
  by (simp add: trackerInv_def)

lemma update_absent: "map_of al k = None \<Longrightarrow> AList.update k v al = al @ [(k, v)]"
  by (induction al) auto

lemma inv_register: "trackerInv t \<Longrightarrow> trackerInv (snd (registerRequest rid tok name now t))"
proof (cases "map_of (activeRequests t) rid")
  case (Some r)
  assume "trackerInv t"
  then show ?thesis by (simp add: register_existing [OF Some])
next
  case None
  assume inv: "trackerInv t"
  have keys: "rid \<notin> fst ` set (activeRequests t)"
    using None by (simp add: map_of_eq_None_iff)
  have refs: "nextRef t \<notin> snd ` set (activeRequests t)"
    using inv by (auto simp: trackerInv_def list_all_iff)
  show ?thesis
    using inv None keys refs
    by (auto simp: registerRequest_def Let_def trackerInv_def update_absent list_all_iff
        newAbortController_def split: option.splits)
qed

lemma delete_subset: "set (AList.delete k al) \<subseteq> set al"
  by (auto simp: AList.delete_eq)

lemma distinct_snd_delete: "distinct (map snd al) \<Longrightarrow> distinct (map snd (AList.delete k al))"
  by (simp add: AList.delete_eq distinct_map_filter)

lemma inv_after_delete:
  assumes inv: "trackerInv t"
    and ar: "activeRequests t' = AList.delete rid (activeRequests t)"
    and cx: "contexts t' = contexts t" and nr: "nextRef t' = nextRef t"
    and cs: "\<And>rid' r'. (rid', r') \<in> set (activeRequests t) \<Longrightarrow> rid' \<noteq> rid \<Longrightarrow>
               controllers t' r' = controllers t r'"
  shows "trackerInv t'"
proof -
  have d1: "distinct (map fst (activeRequests t'))"
    using inv by (simp add: ar trackerInv_def distinct_delete)
  have d2: "distinct (map snd (activeRequests t'))"
    using inv by (simp add: ar trackerInv_def distinct_snd_delete)
  have each: "r' < nextRef t' \<and> contexts t' r' \<noteq> None \<and> \<not> aborted (controllers t' r')"
    if "(rid', r') \<in> set (activeRequests t')" for rid' r'
  proof -
    from that have mem: "(rid', r') \<in> set (activeRequests t)" and ne: "rid' \<noteq> rid"
      by (auto simp: ar AList.delete_eq)
    from inv mem have "r' < nextRef t \<and> contexts t r' \<noteq> None \<and> \<not> aborted (controllers t r')"
      by (auto simp: trackerInv_def list_all_iff)
    then show ?thesis
      by (simp add: cx nr cs [OF mem ne])
  qed
  have heap: "\<forall>r ctx. contexts t' r = Some ctx \<longrightarrow> abortController ctx = r"
    using inv by (simp add: cx trackerInv_def)
  show ?thesis
    unfolding trackerInv_def using d1 d2 each heap by (auto simp: list_all_iff)
qed

lemma inv_cleanup: "trackerInv t \<Longrightarrow> trackerInv (cleanup rid t)"
proof (cases "getRequest t rid")
  case None
  assume "trackerInv t"
  then show ?thesis by (simp add: cleanup_def None)
next
  case (Some p)
  assume inv: "trackerInv t"
  obtain r ctx where g: "getRequest t rid = Some (r, ctx)" using Some by (cases p) simp
  show ?thesis
    by (rule inv_after_delete [OF inv activeRequests_cleanup [OF g]]) simp_all
qed

lemma other_entry_other_ref:
  assumes inv: "trackerInv t" and a: "(rid, r) \<in> set (activeRequests t)"
    and b: "(rid', r') \<in> set (activeRequests t)" and ne: "rid' \<noteq> rid"
  shows "r' \<noteq> r"
proof
  assume "r' = r"
  with a b inv have "(rid', r') = (rid, r)"
    by (fastforce simp: trackerInv_def distinct_map inj_on_def)
  with ne show False by simp
qed

lemma inv_abort_cleanup:
  assumes inv: "trackerInv t" and mem: "(rid, r) \<in> set (activeRequests t)"
    and ar: "activeRequests t2 = activeRequests t"
    and cx: "contexts t2 = contexts t" and nr: "nextRef t2 = nextRef t"
    and cs: "\<And>r'. r' \<noteq> r \<Longrightarrow> controllers t2 r' = controllers t r'"
  shows "trackerInv (cleanup rid t2)"
proof -
  from inv mem have reg: "map_of (activeRequests t) rid = Some r"
    by (simp add: trackerInv_def)
  from inv mem obtain ctx where c: "contexts t r = Some ctx"
    by (auto simp: trackerInv_def list_all_iff)
  have g: "getRequest t2 rid = Some (r, ctx)"
    by (simp add: getRequest_def ar cx reg c)
  show ?thesis
  proof (rule inv_after_delete [OF inv])
    show "activeRequests (cleanup rid t2) = AList.delete rid (activeRequests t)"
      by (simp add: activeRequests_cleanup [OF g] ar)
    show "contexts (cleanup rid t2) = contexts t" by (simp add: cx)
    show "nextRef (cleanup rid t2) = nextRef t" by (simp add: nr)
    show "controllers (cleanup rid t2) r' = controllers t r'"
      if "(rid', r') \<in> set (activeRequests t)" and "rid' \<noteq> rid" for rid' r'
      using cs [OF other_entry_other_ref [OF inv mem that]] by simp
  qed
qed

lemma inv_cancel: "trackerInv t \<Longrightarrow> trackerInv (snd (cancelRequest rid rsn t))"
proof (cases "getRequest t rid")
  case None
  assume "trackerInv t"
  then show ?thesis by (simp add: cancel_absent [OF None])
next
  case (Some p)
  assume inv: "trackerInv t"
  obtain r ctx where g: "getRequest t rid = Some (r, ctx)" using Some by (cases p) simp
  from getRequest_SomeD [OF g] have reg: "map_of (activeRequests t) rid = Some r"
    and c: "contexts t r = Some ctx" by simp_all
  from reg have mem: "(rid, r) \<in> set (activeRequests t)" by (rule map_of_SomeD)
  from inv c have a: "abortController ctx = r" by (simp add: trackerInv_def)
  show ?thesis
  proof (cases "aborted (controllers t (abortController ctx))")
    case True
    with inv show ?thesis by (simp add: cancel_aborted [OF g True])
  next
    case False
    have "trackerInv (cleanup rid (logT (INFO, ''REQUEST_CANCELLED'') (abortAt r rsn t)))"
      by (rule inv_abort_cleanup [OF inv mem]) simp_all
    then show ?thesis
      by (simp add: cancel_fresh [OF g False] a)
  qed
qed

lemma inv_sweep:
  assumes "trackerInv t" and "set es \<subseteq> set (activeRequests t)" and "distinct (map fst es)"
  shows "trackerInv (snd (sweep now maxAgeMs es (n, t)))"
  using assms
proof (induction es arbitrary: n t)
  case Nil
  then show ?case by simp
next
  case (Cons e es)
  obtain rid r where e: "e = (rid, r)" by (cases e)
  from Cons.prems e have mem: "(rid, r) \<in> set (activeRequests t)" by simp
  from Cons.prems(1) mem obtain ctx where c: "contexts t r = Some ctx"
    and live: "\<not> aborted (controllers t r)"
    by (auto simp: trackerInv_def list_all_iff)
  from Cons.prems(1) c have a: "abortController ctx = r" by (simp add: trackerInv_def)
  from Cons.prems(3) have d: "distinct (map fst es)" by simp
  show ?case
  proof (cases "now - startTime ctx > maxAgeMs")
    case False
    then show ?thesis
      using Cons.IH [OF Cons.prems(1) _ d] Cons.prems(2) by (simp add: e c)
  next
    case True
    let ?t2 = "abortAt r (Some ''Request timed out'') (logT (WARN, ''REQUEST_STALE'') t)"
    have inv': "trackerInv (cleanup rid ?t2)"
      by (rule inv_abort_cleanup [OF Cons.prems(1) mem]) simp_all
    from Cons.prems(1) mem have reg: "map_of (activeRequests t) rid = Some r"
      by (simp add: trackerInv_def)
    have g: "getRequest ?t2 rid = Some (r, ctx)"
      by (simp add: getRequest_def reg c)
    have rest: "set es \<subseteq> set (activeRequests (cleanup rid ?t2))"
    proof
      fix x assume x: "x \<in> set es"
      with Cons.prems(2) have "x \<in> set (activeRequests t)" by auto
      moreover from x Cons.prems(3) e have "fst x \<noteq> rid" by auto
      ultimately show "x \<in> set (activeRequests (cleanup rid ?t2))"
        by (auto simp: activeRequests_cleanup [OF g] AList.delete_eq)
    qed
    show ?thesis
      using Cons.IH [OF inv' rest d] True live by (simp add: e c a)
  qed
qed

lemma inv_cleanupStaleRequests:
  assumes "trackerInv t"
  shows "trackerInv (snd (cleanupStaleRequests maxAgeMs now t))"
proof -
  have d: "distinct (map fst (activeRequests t))"
    using assms by (simp add: trackerInv_def)
  have "trackerInv (snd (sweep now maxAgeMs (activeRequests t) (0, t)))"
    by (rule inv_sweep [OF assms _ d]) simp
  then show ?thesis
    by (cases "sweep now maxAgeMs (activeRequests t) (0, t)") (simp add: cleanupStaleRequests_def)
qed

lemma abortEach_fields [simp]:
  "contexts (abortEach es t) = contexts t" "nextRef (abortEach es t) = nextRef t"
  by (induction es t rule: abortEach.induct) (simp_all split: option.splits)

lemma inv_shutdown: "trackerInv t \<Longrightarrow> trackerInv (shutdown t)"
  by (simp add: shutdown_def Let_def trackerInv_def)

lemma inv_perform: "trackerInv t \<Longrightarrow> trackerInv (perform x t)"
  by (cases x) (simp_all add: inv_register inv_cancel inv_cleanup inv_cleanupStaleRequests inv_shutdown)

lemma inv_performAll: "trackerInv t \<Longrightarrow> trackerInv (performAll xs t)"
  by (induction xs arbitrary: t) (simp_all add: inv_perform)

lemma registered_is_live:
  assumes "map_of (activeRequests (performAll xs newRequestTracker)) rid = Some r"
  shows "\<exists>ctx. getRequest (performAll xs newRequestTracker) rid = Some (r, ctx) \<and>
               \<not> aborted (controllers (performAll xs newRequestTracker) (abortController ctx))"
proof -
  let ?t = "performAll xs newRequestTracker"
  have inv: "trackerInv ?t" by (rule inv_performAll [OF inv_new])
  from assms have mem: "(rid, r) \<in> set (activeRequests ?t)" by (rule map_of_SomeD)
  from inv mem obtain ctx where c: "contexts ?t r = Some ctx"
    and live: "\<not> aborted (controllers ?t r)"
    by (auto simp: trackerInv_def list_all_iff)
  from inv c have "abortController ctx = r" by (simp add: trackerInv_def)
  with assms c live show ?thesis by (simp add: getRequest_def)
qed

lemma tracked_fields:
  "activeRequests tracked = [(StrKey ''req-1'', 0)]"
  "progressTokens tracked = [(StrKey ''tok-1'', StrKey ''req-1'')]"
  "contexts tracked 0 =
     Some \<lparr>requestId = StrKey ''req-1'', abortController = 0,
           progressToken = Some (StrKey ''tok-1''), startTime = 1000,
           toolName = Some ''notion_search''\<rparr>"
  "controllers tracked 0 = newAbortController"
  "nextRef tracked = 1"
  by (simp_all add: registerRequest_def newRequestTracker_def Let_def)

lemma tracked_getRequest:
  "getRequest tracked (StrKey ''req-1'') =
     Some (0, \<lparr>requestId = StrKey ''req-1'', abortController = 0,
               progressToken = Some (StrKey ''tok-1''), startTime = 1000,
               toolName = Some ''notion_search''\<rparr>)"
  by (simp add: getRequest_def tracked_fields)

lemma tracked_active: "isProgressTokenActive tracked (StrKey ''tok-1'')"
  by (simp add: isProgressTokenActive_def isActive_def tracked_getRequest tracked_fields
      newAbortController_def)

subsection \<open>Duplicate registration\<close>

text \<open>
  C5. Registering an id that is still tracked returns the reference of the context already
  stored for it, whatever token, tool name and time the second call brings, and changes
  nothing but the log: no context and no controller is allocated (\<open>nextRef\<close> and both
  heaps are as before, so the start time and every other field of the existing context are
  untouched) and neither map changes. In particular the second of two registrations of
  one id returns the reference the first one returned.
\<close>

theorem duplicate_registration_returns_existing_context:
  "(map_of (activeRequests t) rid = Some r \<longrightarrow>
      fst (registerRequest rid tok name now t) = r \<and>
      snd (registerRequest rid tok name now t) =
        t\<lparr>trackerLog := trackerLog t @ [(WARN, ''REQUEST_DUPLICATE'')]\<rparr>) \<and>
   (registerRequest rid tok name now t = (r1, t1) \<longrightarrow>
      fst (registerRequest rid tok' name' now' t1) = r1 \<and>
      contexts (snd (registerRequest rid tok' name' now' t1)) = contexts t1 \<and>
      controllers (snd (registerRequest rid tok' name' now' t1)) = controllers t1 \<and>
      nextRef (snd (registerRequest rid tok' name' now' t1)) = nextRef t1 \<and>
      activeRequests (snd (registerRequest rid tok' name' now' t1)) = activeRequests t1 \<and>
      progressTokens (snd (registerRequest rid tok' name' now' t1)) = progressTokens t1)"
proof (intro conjI impI)
  assume "map_of (activeRequests t) rid = Some r"
  then have eq: "registerRequest rid tok name now t = (r, logT (WARN, ''REQUEST_DUPLICATE'') t)"
    by (rule register_existing)
  show "fst (registerRequest rid tok name now t) = r"
    by (simp add: eq)
  show "snd (registerRequest rid tok name now t) =
          t\<lparr>trackerLog := trackerLog t @ [(WARN, ''REQUEST_DUPLICATE'')]\<rparr>"
    by (simp add: eq logT_def)
next
  assume first: "registerRequest rid tok name now t = (r1, t1)"
  have eq: "registerRequest rid tok' name' now' t1 = (r1, logT (WARN, ''REQUEST_DUPLICATE'') t1)"
    by (rule register_existing [OF register_tracks [OF first]])
  show "fst (registerRequest rid tok' name' now' t1) = r1"
    and "contexts (snd (registerRequest rid tok' name' now' t1)) = contexts t1"
    and "controllers (snd (registerRequest rid tok' name' now' t1)) = controllers t1"
    and "nextRef (snd (registerRequest rid tok' name' now' t1)) = nextRef t1"
    and "activeRequests (snd (registerRequest rid tok' name' now' t1)) = activeRequests t1"
    and "progressTokens (snd (registerRequest rid tok' name' now' t1)) = progressTokens t1"
    by (simp_all add: eq)
qed

text \<open>
  The theorem at work: \<open>req-1\<close> is registered at time 1000 with a token and a tool name,
  and again at time 2000 without either. Both calls return reference 0, and the context
  behind it still has the start time 1000.
\<close>

theorem duplicate_registration_witness:
  "map_of (activeRequests tracked) (StrKey ''req-1'') = Some 0 \<and>
   fst (registerRequest (StrKey ''req-1'') None None 2000 tracked) = 0 \<and>
   snd (registerRequest (StrKey ''req-1'') None None 2000 tracked) =
     tracked\<lparr>trackerLog := trackerLog tracked @ [(WARN, ''REQUEST_DUPLICATE'')]\<rparr> \<and>
   map_option startTime
     (contexts (snd (registerRequest (StrKey ''req-1'') None None 2000 tracked)) 0) = Some 1000"
proof -
  have reg: "map_of (activeRequests tracked) (StrKey ''req-1'') = Some 0"
    by (simp add: tracked_fields)
  from duplicate_registration_returns_existing_context
         [of tracked "StrKey ''req-1''" 0 None None 2000]
  have "fst (registerRequest (StrKey ''req-1'') None None 2000 tracked) = 0 \<and>
        snd (registerRequest (StrKey ''req-1'') None None 2000 tracked) =
          tracked\<lparr>trackerLog := trackerLog tracked @ [(WARN, ''REQUEST_DUPLICATE'')]\<rparr>"
    using reg by blast
  then show ?thesis
    using reg by (simp add: tracked_fields)
qed

subsection \<open>Cancellation\<close>

lemma cancel_live_twice:
  assumes reg: "getRequest t rid = Some (r, ctx)"
    and fresh: "\<not> aborted (controllers t (abortController ctx))"
  shows "fst (cancelRequest rid rsn t) = True \<and>
      aborted (controllers (snd (cancelRequest rid rsn t)) (abortController ctx)) \<and>
      reason (controllers (snd (cancelRequest rid rsn t)) (abortController ctx)) =
        Some (case rsn of None \<Rightarrow> AbortError | Some s \<Rightarrow> GivenReason s) \<and>
      signalAborted (snd (cancelRequest rid rsn t)) r \<and>
      activeRequests (snd (cancelRequest rid rsn t)) = AList.delete rid (activeRequests t) \<and>
      progressTokens (snd (cancelRequest rid rsn t)) =
        (case progressToken ctx of
           None \<Rightarrow> progressTokens t
         | Some p \<Rightarrow> AList.delete p (progressTokens t)) \<and>
      getRequest (snd (cancelRequest rid rsn t)) rid = None \<and>
      fst (cancelRequest rid rsn' (snd (cancelRequest rid rsn t))) = False \<and>
      controllers (snd (cancelRequest rid rsn' (snd (cancelRequest rid rsn t)))) =
        controllers (snd (cancelRequest rid rsn t)) \<and>
      signalAborted (snd (cancelRequest rid rsn' (snd (cancelRequest rid rsn t)))) r"
proof -
  let ?t1 = "snd (cancelRequest rid rsn t)"
  have t1: "?t1 = cleanup rid
                    (logT (INFO, ''REQUEST_CANCELLED'') (abortAt (abortController ctx) rsn t))"
    using cancel_fresh [OF reg fresh] by simp
  have reg': "getRequest (logT (INFO, ''REQUEST_CANCELLED'') (abortAt (abortController ctx) rsn t))
                rid = Some (r, ctx)"
    using reg by simp
  have ctx1: "contexts ?t1 r = Some ctx"
    using getRequest_SomeD [OF reg] by (simp add: t1)
  have c1: "controllers ?t1 (abortController ctx) = abort rsn (controllers t (abortController ctx))"
    by (simp add: t1)
  have gone: "getRequest ?t1 rid = None"
    by (simp add: t1)
  have second: "cancelRequest rid rsn' ?t1 = (False, logT (DEBUG, ''CANCEL_REQUEST_NOT_FOUND'') ?t1)"
    by (rule cancel_absent [OF gone])
  have first: "fst (cancelRequest rid rsn t) = True"
    using cancel_fresh [OF reg fresh, of rsn] by simp
  have ab: "aborted (controllers ?t1 (abortController ctx))"
    using fresh by (simp add: c1 abort_fresh)
  have rs: "reason (controllers ?t1 (abortController ctx)) =
          Some (case rsn of None \<Rightarrow> AbortError | Some s \<Rightarrow> GivenReason s)"
    using fresh by (simp add: c1 abort_fresh)
  have sa: "signalAborted ?t1 r"
    using ctx1 ab by (simp add: signalAborted_def)
  have ar: "activeRequests ?t1 = AList.delete rid (activeRequests t)"
    unfolding t1 activeRequests_cleanup [OF reg'] by simp
  have pt: "progressTokens ?t1 =
          (case progressToken ctx of
             None \<Rightarrow> progressTokens t
           | Some p \<Rightarrow> AList.delete p (progressTokens t))"
    unfolding t1 progressTokens_cleanup [OF reg'] by (simp split: option.splits)
  have f2: "fst (cancelRequest rid rsn' ?t1) = False"
    by (simp add: second)
  have c2: "controllers (snd (cancelRequest rid rsn' ?t1)) = controllers ?t1"
    by (simp add: second)
  have sa2: "signalAborted (snd (cancelRequest rid rsn' ?t1)) r"
    using ctx1 ab by (simp add: second signalAborted_def)
  from first ab rs sa ar pt gone f2 c2 sa2 show ?thesis by blast
qed

text \<open>
  C4, as stated, says that the first call to cancel returns true for every registered id.
  \<open>cancelRequest\<close> guards on the handle: when a holder of the context has already
  aborted it, the id is registered and the first call returns false. Here \<open>req-1\<close> is
  registered, its context (reference 0) is aborted by its holder, and \<open>cancelRequest\<close>
  answers false and leaves the request in the map.
\<close>

theorem cancel_of_aborted_registration_returns_false:
  "map_of (activeRequests (abortThrough 0 None tracked)) (StrKey ''req-1'') = Some 0 \<and>
   fst (cancelRequest (StrKey ''req-1'') (Some ''user'') (abortThrough 0 None tracked)) = False \<and>
   map_of (activeRequests
            (snd (cancelRequest (StrKey ''req-1'') (Some ''user'') (abortThrough 0 None tracked))))
     (StrKey ''req-1'') = Some 0"
proof -
  let ?ctx = "\<lparr>requestId = StrKey ''req-1'', abortController = 0,
               progressToken = Some (StrKey ''tok-1''), startTime = 1000,
               toolName = Some ''notion_search''\<rparr>"
  have t2: "abortThrough 0 None tracked = abortAt 0 None tracked"
    by (simp add: abortThrough_def tracked_fields)
  have g: "getRequest (abortAt 0 None tracked) (StrKey ''req-1'') = Some (0, ?ctx)"
    by (simp add: tracked_getRequest)
  have a: "aborted (controllers (abortAt 0 None tracked) (abortController ?ctx))"
    by (simp add: tracked_fields abort_def newAbortController_def)
  show ?thesis
    unfolding t2 cancel_aborted [OF g a] by (simp add: tracked_fields)
qed

text \<open>
  C4, amended. For a registered id whose handle is not yet cancelled, \<open>cancelRequest\<close>
  returns true, the handle is cancelled with the given reason (as seen through the retained
  reference \<open>r\<close> as well), and the cleanup has run: the id is gone from
  \<open>activeRequests\<close> and its token from \<open>progressTokens\<close>. A second call on the
  same id then returns false and leaves every handle as it was, so the retained reference
  still shows the request cancelled. For a registered id whose handle is already cancelled,
  and for an id that is not in the map, \<open>cancelRequest\<close> returns false and only writes
  a log line. In a state that the tracker has reached through its own operations alone
  (registration, cancellation, cleanup, the staleness sweep, shutdown), every registered id
  has a handle that is not cancelled: there the first call returns true and the second
  false for every registered id.
\<close>

theorem cancelRequest_idempotent:
  "(getRequest t rid = Some (r, ctx) \<and> \<not> aborted (controllers t (abortController ctx)) \<longrightarrow>
      fst (cancelRequest rid rsn t) = True \<and>
      aborted (controllers (snd (cancelRequest rid rsn t)) (abortController ctx)) \<and>
      reason (controllers (snd (cancelRequest rid rsn t)) (abortController ctx)) =
        Some (case rsn of None \<Rightarrow> AbortError | Some s \<Rightarrow> GivenReason s) \<and>
      signalAborted (snd (cancelRequest rid rsn t)) r \<and>
      activeRequests (snd (cancelRequest rid rsn t)) = AList.delete rid (activeRequests t) \<and>
      progressTokens (snd (cancelRequest rid rsn t)) =
        (case progressToken ctx of
           None \<Rightarrow> progressTokens t
         | Some p \<Rightarrow> AList.delete p (progressTokens t)) \<and>
      getRequest (snd (cancelRequest rid rsn t)) rid = None \<and>
      fst (cancelRequest rid rsn' (snd (cancelRequest rid rsn t))) = False \<and>
      controllers (snd (cancelRequest rid rsn' (snd (cancelRequest rid rsn t)))) =
        controllers (snd (cancelRequest rid rsn t)) \<and>
      signalAborted (snd (cancelRequest rid rsn' (snd (cancelRequest rid rsn t)))) r) \<and>
   (getRequest t rid = Some (r, ctx) \<and> aborted (controllers t (abortController ctx)) \<longrightarrow>
      cancelRequest rid rsn t = (False, logT (DEBUG, ''CANCEL_REQUEST_ALREADY_ABORTED'') t)) \<and>
   (map_of (activeRequests t) rid = None \<longrightarrow>
      cancelRequest rid rsn t = (False, logT (DEBUG, ''CANCEL_REQUEST_NOT_FOUND'') t)) \<and>
   (map_of (activeRequests (performAll xs newRequestTracker)) rid = Some r \<longrightarrow>
      fst (cancelRequest rid rsn (performAll xs newRequestTracker)) = True \<and>
      signalAborted (snd (cancelRequest rid rsn (performAll xs newRequestTracker))) r \<and>
      fst (cancelRequest rid rsn'
             (snd (cancelRequest rid rsn (performAll xs newRequestTracker)))) = False \<and>
      signalAborted
        (snd (cancelRequest rid rsn'
                (snd (cancelRequest rid rsn (performAll xs newRequestTracker))))) r)"
proof -
  have live: "fst (cancelRequest rid rsn t) = True \<and>
      aborted (controllers (snd (cancelRequest rid rsn t)) (abortController ctx)) \<and>
      reason (controllers (snd (cancelRequest rid rsn t)) (abortController ctx)) =
        Some (case rsn of None \<Rightarrow> AbortError | Some s \<Rightarrow> GivenReason s) \<and>
      signalAborted (snd (cancelRequest rid rsn t)) r \<and>
      activeRequests (snd (cancelRequest rid rsn t)) = AList.delete rid (activeRequests t) \<and>
      progressTokens (snd (cancelRequest rid rsn t)) =
        (case progressToken ctx of
           None \<Rightarrow> progressTokens t
         | Some p \<Rightarrow> AList.delete p (progressTokens t)) \<and>
      getRequest (snd (cancelRequest rid rsn t)) rid = None \<and>
      fst (cancelRequest rid rsn' (snd (cancelRequest rid rsn t))) = False \<and>
      controllers (snd (cancelRequest rid rsn' (snd (cancelRequest rid rsn t)))) =
        controllers (snd (cancelRequest rid rsn t)) \<and>
      signalAborted (snd (cancelRequest rid rsn' (snd (cancelRequest rid rsn t)))) r"
    if "getRequest t rid = Some (r, ctx) \<and> \<not> aborted (controllers t (abortController ctx))"
    using that cancel_live_twice [of t rid r ctx rsn rsn'] by blast
  have dead: "cancelRequest rid rsn t = (False, logT (DEBUG, ''CANCEL_REQUEST_ALREADY_ABORTED'') t)"
    if "getRequest t rid = Some (r, ctx) \<and> aborted (controllers t (abortController ctx))"
    using that cancel_aborted by blast
  have absent: "cancelRequest rid rsn t = (False, logT (DEBUG, ''CANCEL_REQUEST_NOT_FOUND'') t)"
    if "map_of (activeRequests t) rid = None"
  proof -
    from that have "getRequest t rid = None"
      by (simp add: getRequest_def)
    then show ?thesis by (rule cancel_absent)
  qed
  have reached: "fst (cancelRequest rid rsn (performAll xs newRequestTracker)) = True \<and>
      signalAborted (snd (cancelRequest rid rsn (performAll xs newRequestTracker))) r \<and>
      fst (cancelRequest rid rsn'
             (snd (cancelRequest rid rsn (performAll xs newRequestTracker)))) = False \<and>
      signalAborted
        (snd (cancelRequest rid rsn'
                (snd (cancelRequest rid rsn (performAll xs newRequestTracker))))) r"
    if "map_of (activeRequests (performAll xs newRequestTracker)) rid = Some r"
  proof -
    from registered_is_live [OF that]
    obtain c where g: "getRequest (performAll xs newRequestTracker) rid = Some (r, c)"
      and f: "\<not> aborted (controllers (performAll xs newRequestTracker) (abortController c))"
      by blast
    from cancel_live_twice [OF g f, of rsn rsn'] show ?thesis by blast
  qed
  from live dead absent reached show ?thesis by blast
qed

text \<open>
  The theorem at work on \<open>req-1\<close>, registered and not cancelled: the first
  \<open>cancelRequest\<close> returns true and the second false, the retained reference 0 shows
  the request cancelled after both, and both maps are empty. On the same tracker an id
  that was never registered gets false, and so does \<open>req-1\<close> once its holder has
  aborted it. And after two registrations, a cancellation of the first and a sweep that
  finds nothing stale, the second request is still registered and its first cancellation
  returns true.
\<close>

theorem cancelRequest_idempotent_witness:
  "fst (cancelRequest (StrKey ''req-1'') (Some ''user'') tracked) = True \<and>
   signalAborted (snd (cancelRequest (StrKey ''req-1'') (Some ''user'') tracked)) 0 \<and>
   reason (controllers (snd (cancelRequest (StrKey ''req-1'') (Some ''user'') tracked)) 0) =
     Some (GivenReason ''user'') \<and>
   activeRequests (snd (cancelRequest (StrKey ''req-1'') (Some ''user'') tracked)) = [] \<and>
   progressTokens (snd (cancelRequest (StrKey ''req-1'') (Some ''user'') tracked)) = [] \<and>
   fst (cancelRequest (StrKey ''req-1'') None
          (snd (cancelRequest (StrKey ''req-1'') (Some ''user'') tracked))) = False \<and>
   signalAborted
     (snd (cancelRequest (StrKey ''req-1'') None
             (snd (cancelRequest (StrKey ''req-1'') (Some ''user'') tracked)))) 0 \<and>
   fst (cancelRequest (NumKey 7) None tracked) = False \<and>
   fst (cancelRequest (StrKey ''req-1'') None (abortAt 0 None tracked)) = False \<and>
   map_of (activeRequests
             (performAll
                [Register (StrKey ''req-1'') None None 1000, Register (NumKey 2) None None 1001,
                 Cancel (StrKey ''req-1'') None, Sweep 300000 1002]
                newRequestTracker)) (NumKey 2) = Some 1 \<and>
   fst (cancelRequest (NumKey 2) None
          (performAll
             [Register (StrKey ''req-1'') None None 1000, Register (NumKey 2) None None 1001,
              Cancel (StrKey ''req-1'') None, Sweep 300000 1002]
             newRequestTracker)) = True"
proof -
  let ?ctx = "\<lparr>requestId = StrKey ''req-1'', abortController = 0,
               progressToken = Some (StrKey ''tok-1''), startTime = 1000,
               toolName = Some ''notion_search''\<rparr>"
  have live: "getRequest tracked (StrKey ''req-1'') = Some (0, ?ctx) \<and>
              \<not> aborted (controllers tracked (abortController ?ctx))"
    by (simp add: tracked_getRequest tracked_fields newAbortController_def)
  have absent: "map_of (activeRequests tracked) (NumKey 7) = None"
    by (simp add: tracked_fields)
  have dead: "getRequest (abortAt 0 None tracked) (StrKey ''req-1'') = Some (0, ?ctx) \<and>
              aborted (controllers (abortAt 0 None tracked) (abortController ?ctx))"
    by (simp add: tracked_getRequest tracked_fields abort_def newAbortController_def)
  let ?xs = "[Register (StrKey ''req-1'') None None 1000, Register (NumKey 2) None None 1001,
              Cancel (StrKey ''req-1'') None, Sweep 300000 1002]"
  have reached: "map_of (activeRequests (performAll ?xs newRequestTracker)) (NumKey 2) = Some 1"
    by (simp add: registerRequest_def cancelRequest_def cleanup_def getRequest_def
        cleanupStaleRequests_def newRequestTracker_def newAbortController_def abort_def Let_def)
  from cancelRequest_idempotent [where t = tracked and rid = "NumKey 7" and rsn = None] absent
  have a: "fst (cancelRequest (NumKey 7) None tracked) = False"
    by simp
  from cancelRequest_idempotent [where rid = "NumKey 2" and r = 1 and rsn = None and xs = ?xs] reached
  have b: "fst (cancelRequest (NumKey 2) None (performAll ?xs newRequestTracker)) = True"
    by blast
  from cancelRequest_idempotent
         [where t = "abortAt 0 None tracked" and rid = "StrKey ''req-1''" and r = 0 and ctx = ?ctx
            and rsn = None] dead
  have c: "fst (cancelRequest (StrKey ''req-1'') None (abortAt 0 None tracked)) = False"
    by simp
  from cancelRequest_idempotent
         [where t = tracked and rid = "StrKey ''req-1''" and r = 0 and ctx = ?ctx
            and rsn = "Some ''user''" and rsn' = None] live
  have d: "fst (cancelRequest (StrKey ''req-1'') (Some ''user'') tracked) = True \<and>
     signalAborted (snd (cancelRequest (StrKey ''req-1'') (Some ''user'') tracked)) 0 \<and>
     reason (controllers (snd (cancelRequest (StrKey ''req-1'') (Some ''user'') tracked))
               (abortController ?ctx)) =
       Some (case Some ''user'' of None \<Rightarrow> AbortError | Some s \<Rightarrow> GivenReason s) \<and>
     activeRequests (snd (cancelRequest (StrKey ''req-1'') (Some ''user'') tracked)) =
       AList.delete (StrKey ''req-1'') (activeRequests tracked) \<and>
     progressTokens (snd (cancelRequest (StrKey ''req-1'') (Some ''user'') tracked)) =
       (case progressToken ?ctx of
          None \<Rightarrow> progressTokens tracked
        | Some p \<Rightarrow> AList.delete p (progressTokens tracked)) \<and>
     fst (cancelRequest (StrKey ''req-1'') None
            (snd (cancelRequest (StrKey ''req-1'') (Some ''user'') tracked))) = False \<and>
     signalAborted
       (snd (cancelRequest (StrKey ''req-1'') None
               (snd (cancelRequest (StrKey ''req-1'') (Some ''user'') tracked)))) 0"
    by blast
  from a b c d reached show ?thesis
    by (simp add: tracked_fields)
qed

section \<open>Properties of the progress reporter\<close>

subsection \<open>Dropped and accepted calls\<close>

lemma numLe_NaN [simp]: "\<not> numLe a NaN"
  by (cases a) simp_all

lemma numLe_refl: "a \<noteq> NaN \<Longrightarrow> numLe a a"
  by (cases a) simp_all

lemma numLt_imp_numLe: "numLt a b \<Longrightarrow> numLe a b"
  by (simp add: numLt_def)

lemma numLt_after: "numLe x l \<Longrightarrow> \<not> numLe p l \<Longrightarrow> p \<noteq> NaN \<Longrightarrow> numLt x p"
  by (cases x; cases l; cases p) (simp_all add: numLt_def)

lemma numLt_above: "\<not> numLe p l \<Longrightarrow> p \<noteq> NaN \<Longrightarrow> l \<noteq> NaN \<Longrightarrow> numLt l p"
  by (cases l; cases p) (simp_all add: numLt_def)

lemma numLt_Finite [simp]: "numLt (Finite x) (Finite y) = (x < y)"
  by (auto simp: numLt_def)

lemma logR_fields [simp]:
  "progressStates (logR l rp) = progressStates rp"
  "sent (logR l rp) = sent rp"
  "reporterLog (logR l rp) = reporterLog rp @ [l]"
  by (simp_all add: logR_def)

lemma cleanupProgress_fields [simp]:
  "progressStates (cleanupProgress tok rp) = AList.delete tok (progressStates rp)"
  "sent (cleanupProgress tok rp) = sent rp"
   apply (simp_all add: cleanupProgress_def split: option.splits)
   apply (simp add: AList.delete_id map_of_eq_None_iff)
  done

lemma reportBegin_dropped:
  "\<not> passes tracker now tok u rp \<Longrightarrow>
   fst (reportBegin tracker now tok u rp) = None \<and>
   progressStates (snd (reportBegin tracker now tok u rp)) = progressStates rp \<and>
   sent (snd (reportBegin tracker now tok u rp)) = sent rp"
  by (auto simp: reportBegin_def passes_def Let_def split: option.splits)

lemma reportBegin_passes:
  "passes tracker now tok u rp \<Longrightarrow>
   reportBegin tracker now tok u rp =
     (Some (ReportFrame tok u (map_of (progressStates rp) tok) now), rp)"
  by (auto simp: reportBegin_def passes_def Let_def split: option.splits)

lemma reportEnd_failure [simp]:
  "progressStates (reportEnd False frame rp) = progressStates rp"
  "sent (reportEnd False frame rp) = sent rp"
  by (cases frame; simp)+

lemma report_dropped:
  "\<not> (passes tracker now tok u rp \<and> sinkOk) \<Longrightarrow>
   progressStates (report tracker now sinkOk tok u rp) = progressStates rp \<and>
   sent (report tracker now sinkOk tok u rp) = sent rp"
proof (cases "passes tracker now tok u rp")
  case True
  assume "\<not> (passes tracker now tok u rp \<and> sinkOk)"
  with True have "\<not> sinkOk" by simp
  then show ?thesis
    by (simp add: report_def reportBegin_passes [OF True])
next
  case False
  from reportBegin_dropped [OF False] show ?thesis
    by (cases "reportBegin tracker now tok u rp") (simp add: report_def)
qed

lemma report_accepted:
  "passes tracker now tok u rp \<Longrightarrow> sinkOk \<Longrightarrow>
   sent (report tracker now sinkOk tok u rp) = sent rp @ [notificationOf tok u] \<and>
   progressStates (report tracker now sinkOk tok u rp) =
     (let st = AList.update tok
                \<lparr>lastProgress = progress u, lastUpdateTime = now,
                 updateCount = (case map_of (progressStates rp) tok of None \<Rightarrow> 0
                                | Some s \<Rightarrow> updateCount s) + 1\<rparr> (progressStates rp)
      in if reachesTotal u then AList.delete tok st else st)"
  by (simp add: report_def reportBegin_passes Let_def)

lemma report_sink_failure:
  "progressStates (report tracker now False tok u rp) = progressStates rp \<and>
   sent (report tracker now False tok u rp) = sent rp"
  by (rule report_dropped) simp

lemma report_cong:
  assumes "progressStates rp = progressStates rp'" and "sent rp = sent rp'"
  shows "progressStates (report tracker now sinkOk tok u rp) = progressStates (report tracker now sinkOk tok u rp') \<and>
         sent (report tracker now sinkOk tok u rp) = sent (report tracker now sinkOk tok u rp')"
proof (cases "passes tracker now tok u rp \<and> sinkOk")
  case True
  then have "passes tracker now tok u rp' \<and> sinkOk" using assms by (simp add: passes_def)
  with True show ?thesis using assms by (simp add: report_accepted)
next
  case False
  then have "\<not> (passes tracker now tok u rp' \<and> sinkOk)" using assms by (simp add: passes_def)
  with False show ?thesis using assms by (simp add: report_dropped)
qed

lemma drop_not_increasing:
  assumes "map_of (progressStates rp) tok = Some s" and "numLe (progress u) (lastProgress s)"
  shows "progressStates (report tracker now sinkOk tok u rp) = progressStates rp \<and>
         sent (report tracker now sinkOk tok u rp) = sent rp"
  using assms by (intro report_dropped) (simp add: passes_def)

lemma drop_rate_limited:
  assumes "map_of (progressStates rp) tok = Some s" and "now - lastUpdateTime s < 100"
  shows "progressStates (report tracker now sinkOk tok u rp) = progressStates rp \<and>
         sent (report tracker now sinkOk tok u rp) = sent rp"
  using assms by (intro report_dropped) (simp add: passes_def minUpdateInterval_def)

lemma emitted_append [simp]:
  "emitted tok (rp\<lparr>sent := sent rp @ [n]\<rparr>) =
     (if notifiedToken n = tok then emitted tok rp @ [notifiedProgress n] else emitted tok rp)"
  by (simp add: emitted_def)

lemma notificationOf_sel [simp]:
  "notifiedToken (notificationOf tok u) = tok" "notifiedProgress (notificationOf tok u) = progress u"
  by (simp_all add: notificationOf_def)

lemma emitted_eq: "sent rp' = sent rp \<Longrightarrow> emitted tok rp' = emitted tok rp"
  by (simp add: emitted_def)

lemma chanInv_cong:
  "sent rp' = sent rp \<Longrightarrow> progressStates rp' = progressStates rp \<Longrightarrow> chanInv tok rp' = chanInv tok rp"
  using emitted_eq [of rp' rp tok] by (simp add: chanInv_def split: option.splits)

lemma accepted_state:
  assumes "passes tracker now tok u rp" and sinkOk and "\<not> reachesTotal u"
  shows "map_of (progressStates (report tracker now sinkOk tok u rp)) tok =
           Some \<lparr>lastProgress = progress u, lastUpdateTime = now,
                 updateCount = (case map_of (progressStates rp) tok of None \<Rightarrow> 0
                                | Some s \<Rightarrow> updateCount s) + 1\<rparr>"
proof -
  have "progressStates (report tracker now sinkOk tok u rp) =
          AList.update tok
                \<lparr>lastProgress = progress u, lastUpdateTime = now,
                 updateCount = (case map_of (progressStates rp) tok of None \<Rightarrow> 0
                                | Some s \<Rightarrow> updateCount s) + 1\<rparr> (progressStates rp)"
    using report_accepted [OF assms(1,2)] assms(3) by (simp add: Let_def)
  then show ?thesis by (simp add: AList.update_conv')
qed

lemma accepted_emitted:
  assumes "passes tracker now tok u rp" and sinkOk
  shows "emitted tok (report tracker now sinkOk tok u rp) = emitted tok rp @ [progress u]"
proof -
  have "sent (report tracker now sinkOk tok u rp) = sent rp @ [notificationOf tok u]"
    using report_accepted [OF assms] by simp
  then show ?thesis by (simp add: emitted_def)
qed

lemma report_other_channel:
  assumes "tok' \<noteq> tok"
  shows "map_of (progressStates (report tracker now sinkOk tok' u rp)) tok =
           map_of (progressStates rp) tok"
    and "emitted tok (report tracker now sinkOk tok' u rp) = emitted tok rp"
proof -
  show "map_of (progressStates (report tracker now sinkOk tok' u rp)) tok =
           map_of (progressStates rp) tok"
  proof (cases "passes tracker now tok' u rp \<and> sinkOk")
    case False
    from report_dropped [OF False] show ?thesis by simp
  next
    case True
    then have "progressStates (report tracker now sinkOk tok' u rp) =
     (let st = AList.update tok'
                \<lparr>lastProgress = progress u, lastUpdateTime = now,
                 updateCount = (case map_of (progressStates rp) tok' of None \<Rightarrow> 0
                                | Some s \<Rightarrow> updateCount s) + 1\<rparr> (progressStates rp)
      in if reachesTotal u then AList.delete tok' st else st)"
      using report_accepted [of tracker now tok' u rp sinkOk] by simp
    then show ?thesis
      using assms by (simp add: Let_def AList.update_conv' AList.delete_conv')
  qed
  show "emitted tok (report tracker now sinkOk tok' u rp) = emitted tok rp"
  proof (cases "passes tracker now tok' u rp \<and> sinkOk")
    case False
    from report_dropped [OF False] show ?thesis by (simp add: emitted_def)
  next
    case True
    then have "sent (report tracker now sinkOk tok' u rp) = sent rp @ [notificationOf tok' u]"
      using report_accepted [of tracker now tok' u rp sinkOk] by simp
    then show ?thesis using assms by (simp add: emitted_def)
  qed
qed

lemma chanInv_report_same:
  assumes inv: "chanInv tok rp" and nr: "\<not> reachesTotal u" and nn: "progress u \<noteq> NaN"
  shows "chanInv tok (report tracker now sinkOk tok u rp)"
proof (cases "passes tracker now tok u rp \<and> sinkOk")
  case False
  from report_dropped [OF False]
  have "chanInv tok (report tracker now sinkOk tok u rp) = chanInv tok rp"
    by (intro chanInv_cong) simp_all
  with inv show ?thesis by simp
next
  case True
  then have p: "passes tracker now tok u rp" and ok: sinkOk by simp_all
  note em = accepted_emitted [OF p ok]
  note st = accepted_state [OF p ok nr]
  have below: "\<forall>x \<in> set (emitted tok rp). numLt x (progress u)"
  proof (cases "map_of (progressStates rp) tok")
    case None
    with inv show ?thesis by (simp add: chanInv_def)
  next
    case (Some s)
    with inv have "\<forall>x \<in> set (emitted tok rp). numLe x (lastProgress s)"
      by (simp add: chanInv_def list_all_iff)
    moreover from p Some have "\<not> numLe (progress u) (lastProgress s)" by (simp add: passes_def)
    ultimately show ?thesis using nn by (blast intro: numLt_after)
  qed
  have srt: "sorted_wrt numLt (emitted tok rp @ [progress u])"
    using inv below by (simp add: chanInv_def sorted_wrt_append)
  have bnd: "list_all (\<lambda>x. numLe x (progress u)) (emitted tok rp @ [progress u])"
    using below numLe_refl [OF nn] by (auto simp: list_all_iff intro: numLt_imp_numLe)
  show ?thesis
    unfolding chanInv_def em st using srt bnd by simp
qed

lemma chanInv_report:
  assumes inv: "chanInv tok rp"
    and nc: "tok' = tok \<longrightarrow> \<not> reachesTotal u \<and> progress u \<noteq> NaN"
  shows "chanInv tok (report tracker now sinkOk tok' u rp)"
proof (cases "tok' = tok")
  case True
  with nc chanInv_report_same [OF inv] show ?thesis by simp
next
  case False
  from report_other_channel [OF False, of tracker now sinkOk u rp] inv show ?thesis
    by (simp add: chanInv_def split: option.splits)
qed

lemma chanInv_reportAll:
  "chanInv tok rp \<Longrightarrow>
   \<forall>c \<in> set cs. callToken c = tok \<longrightarrow>
      \<not> reachesTotal (callUpdate c) \<and> progress (callUpdate c) \<noteq> NaN \<Longrightarrow>
   chanInv tok (reportAll cs rp)"
proof (induction cs arbitrary: rp)
  case Nil
  then show ?case by simp
next
  case (Cons c cs)
  obtain tracker now sinkOk tok' u where c: "c = Report tracker now sinkOk tok' u" by (cases c)
  have "chanInv tok (report tracker now sinkOk tok' u rp)"
    using Cons.prems by (intro chanInv_report) (simp_all add: c)
  then show ?case using Cons.IH Cons.prems(2) by (simp add: c)
qed

lemma chanInv_new: "chanInv tok newProgressReporter"
  by (simp add: chanInv_def newProgressReporter_def emitted_def)

lemma two_calls:
  assumes first: "sent (report tracker1 now1 ok1 tok u1 rp) \<noteq> sent rp"
      and nr: "\<not> reachesTotal u1" and close: "now2 - now1 < 100"
  shows "sent (report tracker2 now2 ok2 tok u2 (report tracker1 now1 ok1 tok u1 rp)) =
           sent (report tracker1 now1 ok1 tok u1 rp) \<and>
         progressStates (report tracker2 now2 ok2 tok u2 (report tracker1 now1 ok1 tok u1 rp)) =
           progressStates (report tracker1 now1 ok1 tok u1 rp)"
proof -
  have acc: "passes tracker1 now1 tok u1 rp \<and> ok1"
    using first report_dropped [of tracker1 now1 tok u1 rp ok1] by blast
  then have st: "map_of (progressStates (report tracker1 now1 ok1 tok u1 rp)) tok =
               Some \<lparr>lastProgress = progress u1, lastUpdateTime = now1,
                 updateCount = (case map_of (progressStates rp) tok of None \<Rightarrow> 0
                                | Some s \<Rightarrow> updateCount s) + 1\<rparr>"
    using report_accepted [of tracker1 now1 tok u1 rp ok1] nr by (simp add: Let_def AList.update_conv')
  show ?thesis
    using drop_rate_limited [OF st, of now2 tracker2 ok2 u2] close by simp
qed


lemma emittedOn_eq: "sent rp' = sent rp \<Longrightarrow> emittedOn tok rp' = emittedOn tok rp"
  by (simp add: emittedOn_def)

lemma notifiedComplete_notificationOf [simp]:
  "notifiedComplete (notificationOf tok u) = reachesTotal u"
  by (simp add: notificationOf_def reachesTotal_def split: option.splits)

lemma stepInv_cong:
  "sent rp' = sent rp \<Longrightarrow> progressStates rp' = progressStates rp \<Longrightarrow> stepInv tok rp' = stepInv tok rp"
  using emittedOn_eq [of rp' rp tok] by (simp add: stepInv_def split: option.splits)

lemma accepted_emittedOn:
  assumes "passes tracker now tok u rp" and sinkOk
  shows "emittedOn tok (report tracker now sinkOk tok u rp) = emittedOn tok rp @ [notificationOf tok u]"
proof -
  have "sent (report tracker now sinkOk tok u rp) = sent rp @ [notificationOf tok u]"
    using report_accepted [OF assms] by simp
  then show ?thesis by (simp add: emittedOn_def)
qed

lemma accepted_state_complete:
  assumes "passes tracker now tok u rp" and sinkOk and "reachesTotal u"
  shows "map_of (progressStates (report tracker now sinkOk tok u rp)) tok = None"
proof -
  have "progressStates (report tracker now sinkOk tok u rp) =
          AList.delete tok (AList.update tok
                \<lparr>lastProgress = progress u, lastUpdateTime = now,
                 updateCount = (case map_of (progressStates rp) tok of None \<Rightarrow> 0
                                | Some s \<Rightarrow> updateCount s) + 1\<rparr> (progressStates rp))"
    using report_accepted [OF assms(1,2)] assms(3) by (simp add: Let_def)
  then show ?thesis by (simp add: AList.delete_conv')
qed

lemma stepInv_report_same:
  assumes inv: "stepInv tok rp" and nn: "progress u \<noteq> NaN"
  shows "stepInv tok (report tracker now sinkOk tok u rp)"
proof (cases "passes tracker now tok u rp \<and> sinkOk")
  case False
  from report_dropped [OF False]
  have "stepInv tok (report tracker now sinkOk tok u rp) = stepInv tok rp"
    by (intro stepInv_cong) simp_all
  with inv show ?thesis by simp
next
  case True
  then have p: "passes tracker now tok u rp" and ok: sinkOk by simp_all
  note em = accepted_emittedOn [OF p ok]
  have link: "emittedOn tok rp = [] \<or> forward (last (emittedOn tok rp)) (notificationOf tok u)"
  proof (cases "map_of (progressStates rp) tok")
    case None
    with inv show ?thesis by (auto simp: stepInv_def forward_def)
  next
    case (Some s)
    from p Some have "\<not> numLe (progress u) (lastProgress s)" by (simp add: passes_def)
    with inv Some nn show ?thesis by (auto simp: stepInv_def forward_def intro: numLt_above)
  qed
  have succ: "successively forward (emittedOn tok rp @ [notificationOf tok u])"
    using inv link by (auto simp: stepInv_def successively_append_iff)
  show ?thesis
  proof (cases "reachesTotal u")
    case True
    from accepted_state_complete [OF p ok True] succ True show ?thesis
      by (simp add: stepInv_def em)
  next
    case False
    from accepted_state [OF p ok False] succ nn show ?thesis
      by (simp add: stepInv_def em)
  qed
qed

lemma report_other_emittedOn:
  assumes "tok' \<noteq> tok"
  shows "emittedOn tok (report tracker now sinkOk tok' u rp) = emittedOn tok rp"
proof (cases "passes tracker now tok' u rp \<and> sinkOk")
  case False
  from report_dropped [OF False] show ?thesis by (simp add: emittedOn_def)
next
  case True
  then have "sent (report tracker now sinkOk tok' u rp) = sent rp @ [notificationOf tok' u]"
    using report_accepted [of tracker now tok' u rp sinkOk] by simp
  then show ?thesis using assms by (simp add: emittedOn_def)
qed

lemma stepInv_report:
  assumes inv: "stepInv tok rp" and nn: "tok' = tok \<longrightarrow> progress u \<noteq> NaN"
  shows "stepInv tok (report tracker now sinkOk tok' u rp)"
proof (cases "tok' = tok")
  case True
  with stepInv_report_same [OF inv] nn show ?thesis by simp
next
  case False
  from report_other_channel(1) [OF False, of tracker now sinkOk u rp]
    report_other_emittedOn [OF False, of tracker now sinkOk u rp] inv
  show ?thesis by (simp add: stepInv_def split: option.splits)
qed

lemma stepInv_reportAll:
  "stepInv tok rp \<Longrightarrow> \<forall>c \<in> set cs. callToken c = tok \<longrightarrow> progress (callUpdate c) \<noteq> NaN \<Longrightarrow>
   stepInv tok (reportAll cs rp)"
proof (induction cs arbitrary: rp)
  case Nil
  then show ?case by simp
next
  case (Cons c cs)
  obtain tracker now sinkOk tok' u where c: "c = Report tracker now sinkOk tok' u" by (cases c)
  have "stepInv tok (report tracker now sinkOk tok' u rp)"
    using Cons.prems by (intro stepInv_report) (simp_all add: c)
  then show ?case using Cons.IH Cons.prems(2) by (simp add: c)
qed

lemma stepInv_new: "stepInv tok newProgressReporter"
  by (simp add: stepInv_def newProgressReporter_def emittedOn_def)


lemma awaited_step:
  assumes "suspended sys = []"
  shows "reporter (runReports (awaited (Report tracker now sinkOk tok u)) sys) =
           report tracker now sinkOk tok u (reporter sys) \<and>
         suspended (runReports (awaited (Report tracker now sinkOk tok u)) sys) = []"
  using assms
  by (cases "reportBegin tracker now tok u (reporter sys)";
      cases "fst (reportBegin tracker now tok u (reporter sys))")
     (simp_all add: report_def)

lemma runReports_append:
  "runReports (xs @ ys) sys = runReports ys (runReports xs sys)"
  by (induction xs arbitrary: sys) simp_all

lemma reportAll_as_run:
  "suspended sys = [] \<Longrightarrow>
   reporter (runReports (concat (map awaited cs)) sys) = reportAll cs (reporter sys) \<and>
   suspended (runReports (concat (map awaited cs)) sys) = []"
proof (induction cs arbitrary: sys)
  case Nil
  then show ?case by simp
next
  case (Cons c cs)
  obtain tracker now sinkOk tok u where c: "c = Report tracker now sinkOk tok u" by (cases c)
  let ?sys1 = "runReports (awaited (Report tracker now sinkOk tok u)) sys"
  from awaited_step [OF Cons.prems, of tracker now sinkOk tok u]
  have r: "reporter ?sys1 = report tracker now sinkOk tok u (reporter sys)"
    and e: "suspended ?sys1 = []"
    by simp_all
  have "runReports (concat (map awaited (c # cs))) sys =
          runReports (concat (map awaited cs)) ?sys1"
    unfolding c by (simp only: list.map concat.simps runReports_append)
  with Cons.IH [OF e] r show ?case
    by (simp add: c)
qed
subsection \<open>A run on one channel\<close>

lemma passes_fresh:
  "isProgressTokenActive tracker tok \<Longrightarrow> map_of (progressStates rp) tok = None \<Longrightarrow>
   passes tracker now tok u rp"
  by (simp add: passes_def)

lemma fresh_begin:
  "reportBegin tracked now (StrKey ''tok-1'') u newProgressReporter =
     (Some (ReportFrame (StrKey ''tok-1'') u None now), newProgressReporter)"
proof -
  have "passes tracked now (StrKey ''tok-1'') u newProgressReporter"
    by (rule passes_fresh [OF tracked_active]) (simp add: newProgressReporter_def)
  from reportBegin_passes [OF this] show ?thesis
    by (simp add: newProgressReporter_def)
qed

lemma started_fields:
  "sent started = [ProgressNotification (StrKey ''tok-1'') (Finite 0) (Some (Finite 100)) None]"
  "progressStates started =
     [(StrKey ''tok-1'', \<lparr>lastProgress = Finite 0, lastUpdateTime = 0, updateCount = 1\<rparr>)]"
proof -
  have p: "passes tracked 0 (StrKey ''tok-1'') (upd 0) newProgressReporter"
    by (rule passes_fresh [OF tracked_active]) (simp add: newProgressReporter_def)
  from report_accepted [OF p, of True]
  show "sent started = [ProgressNotification (StrKey ''tok-1'') (Finite 0) (Some (Finite 100)) None]"
    and "progressStates started =
     [(StrKey ''tok-1'', \<lparr>lastProgress = Finite 0, lastUpdateTime = 0, updateCount = 1\<rparr>)]"
    by (simp_all add: Let_def reachesTotal_def newProgressReporter_def notificationOf_def)
qed

lemma halfway_fields:
  "sent halfway =
     [ProgressNotification (StrKey ''tok-1'') (Finite 0) (Some (Finite 100)) None,
      ProgressNotification (StrKey ''tok-1'') (Finite 50) (Some (Finite 100)) None]"
  "progressStates halfway =
     [(StrKey ''tok-1'', \<lparr>lastProgress = Finite 50, lastUpdateTime = 150, updateCount = 2\<rparr>)]"
proof -
  have p: "passes tracked 150 (StrKey ''tok-1'') (upd 50) started"
    by (simp add: passes_def tracked_active started_fields minUpdateInterval_def)
  from report_accepted [OF p, of True]
  show "sent halfway =
     [ProgressNotification (StrKey ''tok-1'') (Finite 0) (Some (Finite 100)) None,
      ProgressNotification (StrKey ''tok-1'') (Finite 50) (Some (Finite 100)) None]"
    and "progressStates halfway =
     [(StrKey ''tok-1'', \<lparr>lastProgress = Finite 50, lastUpdateTime = 150, updateCount = 2\<rparr>)]"
    by (simp_all add: Let_def reachesTotal_def started_fields notificationOf_def)
qed

text \<open>
  The reporter after an update to 100 of 100 at time 0: the notification is emitted and the
  state of the channel is deleted again.
\<close>

lemma completed_fields:
  "sent (report tracked 0 True (StrKey ''tok-1'') (upd 100) newProgressReporter) =
     [ProgressNotification (StrKey ''tok-1'') (Finite 100) (Some (Finite 100)) None]"
  "progressStates (report tracked 0 True (StrKey ''tok-1'') (upd 100) newProgressReporter) = []"
proof -
  have p: "passes tracked 0 (StrKey ''tok-1'') (upd 100) newProgressReporter"
    by (rule passes_fresh [OF tracked_active]) (simp add: newProgressReporter_def)
  from report_accepted [OF p, of True]
  show "sent (report tracked 0 True (StrKey ''tok-1'') (upd 100) newProgressReporter) =
     [ProgressNotification (StrKey ''tok-1'') (Finite 100) (Some (Finite 100)) None]"
    and "progressStates (report tracked 0 True (StrKey ''tok-1'') (upd 100) newProgressReporter) = []"
    by (simp_all add: Let_def reachesTotal_def newProgressReporter_def notificationOf_def)
qed

text \<open>
  Two calls that start before either is resumed: both pass the checks, against a reporter
  that has no state for the channel yet, both notifications are handed to the sink, and both
  are emitted when the calls are resumed.
\<close>

lemma overlapping_calls:
  "emitted (StrKey ''tok-1'')
     (reporter
        (runReports
           [StartReport tracked now1 (StrKey ''tok-1'') (upd p1),
            StartReport tracked now2 (StrKey ''tok-1'') (upd p2), Resume 0 True, Resume 0 True]
           \<lparr>reporter = newProgressReporter, suspended = [], handed = []\<rparr>)) =
     [Finite p1, Finite p2]"
  "map notifiedProgress
     (handed
        (runReports
           [StartReport tracked now1 (StrKey ''tok-1'') (upd p1),
            StartReport tracked now2 (StrKey ''tok-1'') (upd p2)]
           \<lparr>reporter = newProgressReporter, suspended = [], handed = []\<rparr>)) =
     [Finite p1, Finite p2]"
  by (simp_all add: fresh_begin)
     (simp_all add: Let_def emitted_def reachesTotal_def notificationOf_def newProgressReporter_def
        logR_def)

subsection \<open>A failed emission\<close>

text \<open>
  C10. When \<open>server.notification\<close> throws, \<open>report\<close> leaves the progress states as
  they were, with no state created or updated for the channel, and nothing is emitted. A
  later call therefore meets the same states as if the failed call had not been made, and a
  retry of the same value is judged against the old \<open>lastProgress\<close>.
\<close>

theorem failed_emission_keeps_state:
  "progressStates (report tracker now False tok u rp) = progressStates rp \<and>
   sent (report tracker now False tok u rp) = sent rp \<and>
   progressStates (report tracker' now' sinkOk' tok u (report tracker now False tok u rp)) =
     progressStates (report tracker' now' sinkOk' tok u rp) \<and>
   sent (report tracker' now' sinkOk' tok u (report tracker now False tok u rp)) =
     sent (report tracker' now' sinkOk' tok u rp)"
proof -
  have same: "progressStates (report tracker now False tok u rp) = progressStates rp \<and>
              sent (report tracker now False tok u rp) = sent rp"
    by (rule report_sink_failure)
  then have "progressStates (report tracker' now' sinkOk' tok u (report tracker now False tok u rp)) =
               progressStates (report tracker' now' sinkOk' tok u rp) \<and>
             sent (report tracker' now' sinkOk' tok u (report tracker now False tok u rp)) =
               sent (report tracker' now' sinkOk' tok u rp)"
    by (intro report_cong) simp_all
  with same show ?thesis by simp
qed

text \<open>
  The theorem at work: after \<open>halfway\<close> the update to 60 fails to be sent at time 300;
  the state still says 50, and the retry at time 310 is emitted.
\<close>

theorem failed_emission_witness:
  "progressStates (report tracked 300 False (StrKey ''tok-1'') (upd 60) halfway) =
     [(StrKey ''tok-1'', \<lparr>lastProgress = Finite 50, lastUpdateTime = 150, updateCount = 2\<rparr>)] \<and>
   sent (report tracked 300 False (StrKey ''tok-1'') (upd 60) halfway) = sent halfway \<and>
   emitted (StrKey ''tok-1'')
     (report tracked 310 True (StrKey ''tok-1'') (upd 60)
        (report tracked 300 False (StrKey ''tok-1'') (upd 60) halfway)) =
     [Finite 0, Finite 50, Finite 60]"
proof -
  have p: "passes tracked 310 (StrKey ''tok-1'') (upd 60) halfway"
    by (simp add: passes_def tracked_active halfway_fields minUpdateInterval_def)
  have "emitted (StrKey ''tok-1'') (report tracked 310 True (StrKey ''tok-1'') (upd 60) halfway) =
          [Finite 0, Finite 50, Finite 60]"
    using report_accepted [OF p, of True]
    by (simp add: emitted_def halfway_fields)
  then show ?thesis
    using failed_emission_keeps_state [of tracked 300 "StrKey ''tok-1''" "upd 60" halfway tracked 310 True]
    by (simp add: emitted_def halfway_fields)
qed

subsection \<open>Monotonicity\<close>

text \<open>
  C1, as stated, says that the values emitted on a channel are strictly increasing over
  every sequence of \<open>report\<close> calls. Three runs on one channel show otherwise.
  \<open>report\<close> deletes the state of a channel when an update reaches its total, and a call
  without prior state is not compared with anything: after 100 of 100 the channel emits 50.
  The state is written after the \<open>await\<close>, so of two calls that start before the first
  is resumed the second is checked against the state from before the first: 50 and then 40
  are both emitted. And \<open>NaN\<close> is neither less than or equal to a number nor is a
  number less than or equal to it: after 50 the channel emits \<open>NaN\<close>, and after that
  10.
\<close>

theorem emitted_progress_not_increasing:
  "emitted (StrKey ''tok-1'')
     (reportAll
        [Report tracked 0 True (StrKey ''tok-1'') (upd 100),
         Report tracked 200 True (StrKey ''tok-1'') (upd 50)]
        newProgressReporter) = [Finite 100, Finite 50] \<and>
   emitted (StrKey ''tok-1'')
     (reporter
        (runReports
           [StartReport tracked 0 (StrKey ''tok-1'') (upd 50),
            StartReport tracked 0 (StrKey ''tok-1'') (upd 40), Resume 0 True, Resume 0 True]
           \<lparr>reporter = newProgressReporter, suspended = [], handed = []\<rparr>)) =
     [Finite 50, Finite 40] \<and>
   emitted (StrKey ''tok-1'')
     (reportAll
        [Report tracked 0 True (StrKey ''tok-1'') (upd 50),
         Report tracked 150 True (StrKey ''tok-1'')
           \<lparr>progress = NaN, total = Some (Finite 100), ProgressUpdate.message = None\<rparr>,
         Report tracked 300 True (StrKey ''tok-1'') (upd 10)]
        newProgressReporter) = [Finite 50, NaN, Finite 10]"
proof -
  let ?tok = "StrKey ''tok-1''"
  let ?rp1 = "report tracked 0 True ?tok (upd 100) newProgressReporter"
  have p2: "passes tracked 200 ?tok (upd 50) ?rp1"
    by (rule passes_fresh [OF tracked_active]) (simp add: completed_fields)
  have a: "emitted ?tok (report tracked 200 True ?tok (upd 50) ?rp1) = [Finite 100, Finite 50]"
    using report_accepted [OF p2, of True] by (simp add: emitted_def completed_fields)
  let ?n1 = "report tracked 0 True ?tok (upd 50) newProgressReporter"
  have q1: "passes tracked 0 ?tok (upd 50) newProgressReporter"
    by (rule passes_fresh [OF tracked_active]) (simp add: newProgressReporter_def)
  have n1: "sent ?n1 = [ProgressNotification ?tok (Finite 50) (Some (Finite 100)) None]"
    and s1: "progressStates ?n1 =
               [(?tok, \<lparr>lastProgress = Finite 50, lastUpdateTime = 0, updateCount = 1\<rparr>)]"
    using report_accepted [OF q1, of True]
    by (simp_all add: Let_def reachesTotal_def newProgressReporter_def notificationOf_def)
  let ?nan = "\<lparr>progress = NaN, total = Some (Finite 100), ProgressUpdate.message = None\<rparr>"
  let ?n2 = "report tracked 150 True ?tok ?nan ?n1"
  have q2: "passes tracked 150 ?tok ?nan ?n1"
    by (simp add: passes_def tracked_active s1 minUpdateInterval_def)
  have n2: "sent ?n2 = [ProgressNotification ?tok (Finite 50) (Some (Finite 100)) None,
                        ProgressNotification ?tok NaN (Some (Finite 100)) None]"
    and s2: "progressStates ?n2 =
               [(?tok, \<lparr>lastProgress = NaN, lastUpdateTime = 150, updateCount = 2\<rparr>)]"
    using report_accepted [OF q2, of True]
    by (simp_all add: Let_def reachesTotal_def n1 s1 notificationOf_def)
  have q3: "passes tracked 300 ?tok (upd 10) ?n2"
    by (simp add: passes_def tracked_active s2 minUpdateInterval_def)
  have c: "emitted ?tok (report tracked 300 True ?tok (upd 10) ?n2) =
             [Finite 50, NaN, Finite 10]"
    using report_accepted [OF q3, of True] by (simp add: emitted_def n2)
  from a overlapping_calls(1) [of 0 50 0 40] c show ?thesis
    by simp
qed

text \<open>
  C1, amended. A call that finds prior state for its channel and brings a progress less
  than or equal to \<open>lastProgress\<close> is dropped: it hands nothing to the sink, nothing is
  emitted and the progress states are unchanged. Over every sequence of calls on a new
  reporter in which each call is awaited before the next one starts and no update on the
  channel brings \<open>NaN\<close>, each value emitted on the channel is greater than the one
  emitted before it on that channel, unless that earlier one had reached its total; and
  when moreover no update on the channel reaches its total, the values emitted on it are
  strictly increasing.
\<close>

theorem report_progress_increases:
  "(map_of (progressStates rp) tok = Some s \<and> numLe (progress u) (lastProgress s) \<longrightarrow>
      fst (reportBegin tracker now tok u rp) = None \<and>
      sent (report tracker now sinkOk tok u rp) = sent rp \<and>
      progressStates (report tracker now sinkOk tok u rp) = progressStates rp) \<and>
   ((\<forall>c \<in> set cs. callToken c = tok \<longrightarrow> progress (callUpdate c) \<noteq> NaN) \<longrightarrow>
      successively forward (emittedOn tok (reportAll cs newProgressReporter))) \<and>
   ((\<forall>c \<in> set cs. callToken c = tok \<longrightarrow>
       \<not> reachesTotal (callUpdate c) \<and> progress (callUpdate c) \<noteq> NaN) \<longrightarrow>
      sorted_wrt numLt (emitted tok (reportAll cs newProgressReporter)))"
proof (intro conjI impI)
  assume h: "map_of (progressStates rp) tok = Some s \<and> numLe (progress u) (lastProgress s)"
  then have np: "\<not> passes tracker now tok u rp"
    by (simp add: passes_def)
  from reportBegin_dropped [OF np] show "fst (reportBegin tracker now tok u rp) = None"
    by simp
  from h have "progressStates (report tracker now sinkOk tok u rp) = progressStates rp \<and>
               sent (report tracker now sinkOk tok u rp) = sent rp"
    using drop_not_increasing by blast
  then show "sent (report tracker now sinkOk tok u rp) = sent rp"
    and "progressStates (report tracker now sinkOk tok u rp) = progressStates rp"
    by simp_all
next
  assume "\<forall>c \<in> set cs. callToken c = tok \<longrightarrow> progress (callUpdate c) \<noteq> NaN"
  then have "stepInv tok (reportAll cs newProgressReporter)"
    by (rule stepInv_reportAll [OF stepInv_new])
  then show "successively forward (emittedOn tok (reportAll cs newProgressReporter))"
    by (simp add: stepInv_def)
next
  assume "\<forall>c \<in> set cs. callToken c = tok \<longrightarrow>
            \<not> reachesTotal (callUpdate c) \<and> progress (callUpdate c) \<noteq> NaN"
  then have "chanInv tok (reportAll cs newProgressReporter)"
    by (rule chanInv_reportAll [OF chanInv_new])
  then show "sorted_wrt numLt (emitted tok (reportAll cs newProgressReporter))"
    by (simp add: chanInv_def)
qed

text \<open>
  The theorem at work: after \<open>halfway\<close>, whose state says 50, the update to 40 at time
  300 is dropped; and the four calls 0, 50, 40, 60, awaited one by one, none of which
  reaches the total or brings \<open>NaN\<close>, emit increasing values.
\<close>

theorem report_progress_increases_witness:
  "map_of (progressStates halfway) (StrKey ''tok-1'') =
     Some \<lparr>lastProgress = Finite 50, lastUpdateTime = 150, updateCount = 2\<rparr> \<and>
   fst (reportBegin tracked 300 (StrKey ''tok-1'') (upd 40) halfway) = None \<and>
   sent (report tracked 300 True (StrKey ''tok-1'') (upd 40) halfway) = sent halfway \<and>
   progressStates (report tracked 300 True (StrKey ''tok-1'') (upd 40) halfway) =
     progressStates halfway \<and>
   \<not> reachesTotal (upd 0) \<and> \<not> reachesTotal (upd 50) \<and> \<not> reachesTotal (upd 40) \<and>
   \<not> reachesTotal (upd 60) \<and>
   sorted_wrt numLt
     (emitted (StrKey ''tok-1'')
        (reportAll
           [Report tracked 0 True (StrKey ''tok-1'') (upd 0),
            Report tracked 150 True (StrKey ''tok-1'') (upd 50),
            Report tracked 300 True (StrKey ''tok-1'') (upd 40),
            Report tracked 460 True (StrKey ''tok-1'') (upd 60)]
           newProgressReporter)) \<and>
   successively forward
     (emittedOn (StrKey ''tok-1'')
        (reportAll
           [Report tracked 0 True (StrKey ''tok-1'') (upd 0),
            Report tracked 150 True (StrKey ''tok-1'') (upd 50),
            Report tracked 300 True (StrKey ''tok-1'') (upd 40),
            Report tracked 460 True (StrKey ''tok-1'') (upd 60)]
           newProgressReporter))"
proof -
  let ?cs = "[Report tracked 0 True (StrKey ''tok-1'') (upd 0),
              Report tracked 150 True (StrKey ''tok-1'') (upd 50),
              Report tracked 300 True (StrKey ''tok-1'') (upd 40),
              Report tracked 460 True (StrKey ''tok-1'') (upd 60)]"
  have st: "map_of (progressStates halfway) (StrKey ''tok-1'') =
              Some \<lparr>lastProgress = Finite 50, lastUpdateTime = 150, updateCount = 2\<rparr>"
    by (simp add: halfway_fields)
  have below: "numLe (progress (upd 40))
                 (lastProgress \<lparr>lastProgress = Finite 50, lastUpdateTime = 150, updateCount = 2\<rparr>)"
    by simp
  have none: "\<forall>c \<in> set ?cs. callToken c = StrKey ''tok-1'' \<longrightarrow>
                \<not> reachesTotal (callUpdate c) \<and> progress (callUpdate c) \<noteq> NaN"
    by (simp add: reachesTotal_def)
  note inst = report_progress_increases
      [of halfway "StrKey ''tok-1''"
          "\<lparr>lastProgress = Finite 50, lastUpdateTime = 150, updateCount = 2\<rparr>"
          "upd 40" tracked 300 True ?cs]
  from inst st below
  have drop: "fst (reportBegin tracked 300 (StrKey ''tok-1'') (upd 40) halfway) = None \<and>
              sent (report tracked 300 True (StrKey ''tok-1'') (upd 40) halfway) = sent halfway \<and>
              progressStates (report tracked 300 True (StrKey ''tok-1'') (upd 40) halfway) =
                progressStates halfway"
    by blast
  from inst none
  have run: "sorted_wrt numLt (emitted (StrKey ''tok-1'') (reportAll ?cs newProgressReporter)) \<and>
             successively forward (emittedOn (StrKey ''tok-1'') (reportAll ?cs newProgressReporter))"
    by blast
  have nr: "\<not> reachesTotal (upd 0) \<and> \<not> reachesTotal (upd 50) \<and> \<not> reachesTotal (upd 40) \<and>
            \<not> reachesTotal (upd 60)"
    by (simp add: reachesTotal_def)
  from st drop run nr show ?thesis by blast
qed

subsection \<open>Rate limit\<close>

text \<open>
  C6, as stated, says that of two monotone calls on a channel less than 100 ms apart only
  the first is emitted. The rate limit compares with the \<open>lastUpdateTime\<close> of the
  stored state. An update that reaches its total deletes that state: after 100 of 100 at
  time 0, the update to 150 at time 50 is emitted too. And the state is written after the
  \<open>await\<close>: when the update to 10 at time 0 has not been resumed by the time the update
  to 20 starts at time 50, the second call finds no state, and both are emitted.
\<close>

theorem rate_limit_not_applied:
  "emitted (StrKey ''tok-1'')
     (report tracked 50 True (StrKey ''tok-1'')
        \<lparr>progress = Finite 150, total = Some (Finite 200), ProgressUpdate.message = None\<rparr>
        (report tracked 0 True (StrKey ''tok-1'') (upd 100) newProgressReporter)) =
     [Finite 100, Finite 150] \<and>
   \<not> reachesTotal (upd 10) \<and>
   emitted (StrKey ''tok-1'')
     (reporter
        (runReports
           [StartReport tracked 0 (StrKey ''tok-1'') (upd 10),
            StartReport tracked 50 (StrKey ''tok-1'') (upd 20), Resume 0 True, Resume 0 True]
           \<lparr>reporter = newProgressReporter, suspended = [], handed = []\<rparr>)) =
     [Finite 10, Finite 20]"
proof -
  let ?rp1 = "report tracked 0 True (StrKey ''tok-1'') (upd 100) newProgressReporter"
  let ?u2 = "\<lparr>progress = Finite 150, total = Some (Finite 200), ProgressUpdate.message = None\<rparr>"
  have p2: "passes tracked 50 (StrKey ''tok-1'') ?u2 ?rp1"
    by (rule passes_fresh [OF tracked_active]) (simp add: completed_fields)
  have a: "emitted (StrKey ''tok-1'') (report tracked 50 True (StrKey ''tok-1'') ?u2 ?rp1) =
             [Finite 100, Finite 150]"
    using report_accepted [OF p2, of True] by (simp add: emitted_def completed_fields)
  have b: "\<not> reachesTotal (upd 10)"
    by (simp add: reachesTotal_def)
  from a b overlapping_calls(1) [of 0 10 50 20] show ?thesis
    by simp
qed

text \<open>
  C6, amended. A call that finds prior state for its channel less than 100 ms after the
  \<open>lastUpdateTime\<close> of that state is dropped, whatever its progress: it hands nothing
  to the sink, nothing is emitted and the progress states are unchanged. Of two calls on a
  channel less than 100 ms apart, the first awaited before the second starts, when the first
  is emitted and does not reach its total, the second is dropped.
\<close>

theorem report_rate_limited:
  "(map_of (progressStates rp) tok = Some s \<and> now - lastUpdateTime s < 100 \<longrightarrow>
      fst (reportBegin tracker now tok u rp) = None \<and>
      sent (report tracker now sinkOk tok u rp) = sent rp \<and>
      progressStates (report tracker now sinkOk tok u rp) = progressStates rp) \<and>
   (sent (report tracker1 now1 ok1 tok u1 rp) \<noteq> sent rp \<and> \<not> reachesTotal u1 \<and>
    now2 - now1 < 100 \<longrightarrow>
      sent (report tracker2 now2 ok2 tok u2 (report tracker1 now1 ok1 tok u1 rp)) =
        sent (report tracker1 now1 ok1 tok u1 rp) \<and>
      progressStates (report tracker2 now2 ok2 tok u2 (report tracker1 now1 ok1 tok u1 rp)) =
        progressStates (report tracker1 now1 ok1 tok u1 rp))"
proof (intro conjI impI)
  assume h: "map_of (progressStates rp) tok = Some s \<and> now - lastUpdateTime s < 100"
  then have np: "\<not> passes tracker now tok u rp"
    by (simp add: passes_def minUpdateInterval_def)
  from reportBegin_dropped [OF np] show "fst (reportBegin tracker now tok u rp) = None"
    by simp
  from h have "progressStates (report tracker now sinkOk tok u rp) = progressStates rp \<and>
               sent (report tracker now sinkOk tok u rp) = sent rp"
    using drop_rate_limited by blast
  then show "sent (report tracker now sinkOk tok u rp) = sent rp"
    and "progressStates (report tracker now sinkOk tok u rp) = progressStates rp"
    by simp_all
next
  assume "sent (report tracker1 now1 ok1 tok u1 rp) \<noteq> sent rp \<and> \<not> reachesTotal u1 \<and>
          now2 - now1 < 100"
  then have "sent (report tracker2 now2 ok2 tok u2 (report tracker1 now1 ok1 tok u1 rp)) =
               sent (report tracker1 now1 ok1 tok u1 rp) \<and>
             progressStates (report tracker2 now2 ok2 tok u2 (report tracker1 now1 ok1 tok u1 rp)) =
               progressStates (report tracker1 now1 ok1 tok u1 rp)"
    using two_calls by blast
  then show "sent (report tracker2 now2 ok2 tok u2 (report tracker1 now1 ok1 tok u1 rp)) =
               sent (report tracker1 now1 ok1 tok u1 rp)"
    and "progressStates (report tracker2 now2 ok2 tok u2 (report tracker1 now1 ok1 tok u1 rp)) =
               progressStates (report tracker1 now1 ok1 tok u1 rp)"
    by simp_all
qed

text \<open>
  The theorem at work: \<open>halfway\<close> was last updated at time 150, and the update to 60
  at time 200 is dropped; the update to 0 at time 0 on a new reporter is emitted, and the
  update to 50 that follows it at time 99 is dropped.
\<close>

theorem report_rate_limited_witness:
  "map_of (progressStates halfway) (StrKey ''tok-1'') =
     Some \<lparr>lastProgress = Finite 50, lastUpdateTime = 150, updateCount = 2\<rparr> \<and>
   fst (reportBegin tracked 200 (StrKey ''tok-1'') (upd 60) halfway) = None \<and>
   sent (report tracked 200 True (StrKey ''tok-1'') (upd 60) halfway) = sent halfway \<and>
   sent started \<noteq> sent newProgressReporter \<and> \<not> reachesTotal (upd 0) \<and>
   sent (report tracked 99 True (StrKey ''tok-1'') (upd 50) started) = sent started \<and>
   progressStates (report tracked 99 True (StrKey ''tok-1'') (upd 50) started) =
     progressStates started"
proof -
  have st: "map_of (progressStates halfway) (StrKey ''tok-1'') =
              Some \<lparr>lastProgress = Finite 50, lastUpdateTime = 150, updateCount = 2\<rparr>"
    by (simp add: halfway_fields)
  have soon: "(200::int) -
                lastUpdateTime \<lparr>lastProgress = Finite 50, lastUpdateTime = 150, updateCount = 2\<rparr> < 100"
    by simp
  have first: "sent started \<noteq> sent newProgressReporter"
    unfolding started_fields by (simp add: newProgressReporter_def)
  have nr: "\<not> reachesTotal (upd 0)"
    by (simp add: reachesTotal_def)
  have close: "(99::int) - 0 < 100"
    by simp
  from report_rate_limited
         [of halfway "StrKey ''tok-1''"
             "\<lparr>lastProgress = Finite 50, lastUpdateTime = 150, updateCount = 2\<rparr>" 200 tracked
             "upd 60" True]
       st soon
  have a: "fst (reportBegin tracked 200 (StrKey ''tok-1'') (upd 60) halfway) = None \<and>
           sent (report tracked 200 True (StrKey ''tok-1'') (upd 60) halfway) = sent halfway"
    by blast
  from report_rate_limited
         [of newProgressReporter "StrKey ''tok-1''" _ _ _ _ _ tracked 0 True "upd 0" 99 tracked True
             "upd 50"]
       first nr close
  have b: "sent (report tracked 99 True (StrKey ''tok-1'') (upd 50) started) = sent started \<and>
           progressStates (report tracked 99 True (StrKey ''tok-1'') (upd 50) started) =
             progressStates started"
    by blast
  from st a first nr b show ?thesis by blast
qed
section \<open>Properties of the log shipper\<close>

subsection \<open>The retry loop, attempt by attempt\<close>

lemma sleeps_append [simp]: "sleeps (a @ b) = sleeps a @ sleeps b"
  by (induction a rule: sleeps.induct) simp_all

lemma posts_append [simp]: "posts (a @ b) = posts a @ posts b"
  by (induction a rule: posts.induct) simp_all

lemma skippedFields_effects [simp]:
  "sleeps (skippedFields m) = []" "posts (skippedFields m) = []"
  by (induction m rule: skippedFields.induct) simp_all

lemma cleaningWarnings_effects [simp]:
  "sleeps (cleaningWarnings logs) = []" "posts (cleaningWarnings logs) = []"
  by (induction logs) (simp_all add: cleaningWarnings_def split: option.splits)

lemma cleanMetadata_bigint:
  "list_ex (\<lambda>(k, v). isBigInt v) (cleanMetadata m) = list_ex (\<lambda>(k, v). isBigInt v) m"
  by (induction m rule: cleanMetadata.induct) (simp_all split: option.splits)

lemma hasBigInt_cleanLog [simp]: "hasBigInt (cleanLog env i e) = hasBigInt e"
  by (simp add: hasBigInt_def cleanLog_def cleanMetadata_bigint split: option.splits)

lemma cleaned_serializes:
  assumes "\<not> list_ex hasBigInt logs"
  shows "\<not> list_ex hasBigInt (validateAndCleanLogs env logs)"
proof -
  have "\<forall>e \<in> set logs. \<not> hasBigInt e"
    using assms by (simp add: list_ex_iff)
  then have "\<forall>r \<in> set (map (\<lambda>(i, entry). cleanLog env i entry) (enumerate 0 logs)). \<not> hasBigInt r"
    by (auto simp: in_set_enumerate_eq)
  then show ?thesis
    by (auto simp: validateAndCleanLogs_def list_ex_iff)
qed

lemma sendLogs_sleeps [simp]: "sleeps (fst (sendLogs cfg env res logs)) = []"
  by (simp add: sendLogs_def Let_def split: FetchResult.splits)

lemma sendLogs_posts_cases:
  "posts (fst (sendLogs cfg env res logs)) =
     (if list_ex hasBigInt (validateAndCleanLogs env logs) then []
      else [validateAndCleanLogs env logs])"
  by (simp add: sendLogs_def Let_def split: FetchResult.splits)

lemma sendLogs_posts [simp]:
  "\<not> list_ex hasBigInt logs \<Longrightarrow>
   posts (fst (sendLogs cfg env res logs)) = [validateAndCleanLogs env logs]"
  by (simp add: sendLogs_posts_cases cleaned_serializes)

lemma sendLogs_retryable:
  "\<not> list_ex hasBigInt logs \<Longrightarrow> retryableFailure res \<Longrightarrow>
   \<exists>err. snd (sendLogs cfg env res logs) = Inl err \<and> \<not> clientError (errorStatus err) \<and>
         (if errorStatus err = Some 429 then 1000 else 500) * 2 ^ (n - 1) = backoff res n"
  by (cases res) (auto simp: sendLogs_def Let_def clientError_def cleaned_serializes)

lemma sendLogs_nonRetryable:
  "\<not> list_ex hasBigInt logs \<Longrightarrow> nonRetryable res \<Longrightarrow>
   \<exists>err. snd (sendLogs cfg env res logs) = Inl err \<and> clientError (errorStatus err)"
  by (cases res) (auto simp: sendLogs_def Let_def clientError_def cleaned_serializes)

declare sendLogsFrom.simps [simp del]

lemma from_retry:
  assumes "int a < maxRetries cfg" and "retryableFailure (snd (world a))"
    and ser: "\<not> list_ex hasBigInt logs"
  shows "sendLogsFrom cfg world logs a =
           (fst (sendLogs cfg (fst (world a)) (snd (world a)) logs) @
              [LogLocally ''WARN'' ''Retrying log shipment'', Sleep (backoff (snd (world a)) a)] @
              fst (sendLogsFrom cfg world logs (Suc a)),
            snd (sendLogsFrom cfg world logs (Suc a)))"
proof -
  obtain err where e: "snd (sendLogs cfg (fst (world a)) (snd (world a)) logs) = Inl err"
    and nc: "\<not> clientError (errorStatus err)"
    and d: "(if errorStatus err = Some 429 then 1000 else 500) * 2 ^ (a - 1) = backoff (snd (world a)) a"
    using sendLogs_retryable [OF ser assms(2)] by blast
  obtain fx where s: "sendLogs cfg (fst (world a)) (snd (world a)) logs = (fx, Inl err)"
    using e by (cases "sendLogs cfg (fst (world a)) (snd (world a)) logs") simp
  show ?thesis
    using assms(1) nc d by (subst sendLogsFrom.simps) (simp add: s Let_def)
qed

lemma from_last:
  assumes "int a = maxRetries cfg" and "retryableFailure (snd (world a))"
    and ser: "\<not> list_ex hasBigInt logs"
  shows "sendLogsFrom cfg world logs a =
           (fst (sendLogs cfg (fst (world a)) (snd (world a)) logs) @
              [LogLocally ''ERROR'' ''Max retries exceeded''],
            snd (sendLogs cfg (fst (world a)) (snd (world a)) logs))"
proof -
  obtain err where e: "snd (sendLogs cfg (fst (world a)) (snd (world a)) logs) = Inl err"
    and nc: "\<not> clientError (errorStatus err)"
    using sendLogs_retryable [OF ser assms(2), where n = 0] by blast
  obtain fx where s: "sendLogs cfg (fst (world a)) (snd (world a)) logs = (fx, Inl err)"
    using e by (cases "sendLogs cfg (fst (world a)) (snd (world a)) logs") simp
  show ?thesis
    using assms(1) nc by (subst sendLogsFrom.simps) (simp add: s Let_def)
qed

lemma from_client_error:
  assumes "int a \<le> maxRetries cfg" and "nonRetryable (snd (world a))"
    and ser: "\<not> list_ex hasBigInt logs"
  shows "sendLogsFrom cfg world logs a =
           (fst (sendLogs cfg (fst (world a)) (snd (world a)) logs) @
              [LogLocally ''ERROR'' ''Client error - not retrying''],
            snd (sendLogs cfg (fst (world a)) (snd (world a)) logs))"
proof -
  obtain err where e: "snd (sendLogs cfg (fst (world a)) (snd (world a)) logs) = Inl err"
    and nc: "clientError (errorStatus err)"
    using sendLogs_nonRetryable [OF ser assms(2)] by blast
  obtain fx where s: "sendLogs cfg (fst (world a)) (snd (world a)) logs = (fx, Inl err)"
    using e by (cases "sendLogs cfg (fst (world a)) (snd (world a)) logs") simp
  show ?thesis
    using assms(1) nc by (subst sendLogsFrom.simps) (simp add: s Let_def)
qed

lemma from_posts_nonempty:
  assumes "int a \<le> maxRetries cfg" and ser: "\<not> list_ex hasBigInt logs"
  shows "posts (fst (sendLogsFrom cfg world logs a)) \<noteq> []"
proof -
  obtain fx r where s: "sendLogs cfg (fst (world a)) (snd (world a)) logs = (fx, r)"
    by (cases "sendLogs cfg (fst (world a)) (snd (world a)) logs")
  have p: "posts fx = [validateAndCleanLogs (fst (world a)) logs]"
    using sendLogs_posts [OF ser, of cfg "fst (world a)" "snd (world a)"] by (simp add: s)
  show ?thesis
    using assms(1) p
    by (subst sendLogsFrom.simps) (simp add: s Let_def split: sum.splits)
qed

lemma retries_unfold:
  assumes "int n < maxRetries cfg"
    and "\<forall>k. a \<le> k \<and> k \<le> n \<longrightarrow> retryableFailure (snd (world k))"
    and "a \<le> Suc n"
    and "\<not> list_ex hasBigInt logs"
  shows "sleeps (fst (sendLogsFrom cfg world logs a)) =
           map (\<lambda>k. backoff (snd (world k)) k) [a..<Suc n] @
           sleeps (fst (sendLogsFrom cfg world logs (Suc n))) \<and>
         posts (fst (sendLogsFrom cfg world logs a)) =
           map (\<lambda>k. validateAndCleanLogs (fst (world k)) logs) [a..<Suc n] @
           posts (fst (sendLogsFrom cfg world logs (Suc n))) \<and>
         snd (sendLogsFrom cfg world logs a) = snd (sendLogsFrom cfg world logs (Suc n))"
  using assms
proof (induction "Suc n - a" arbitrary: a)
  case 0
  then have "a = Suc n" by simp
  then show ?case by simp
next
  case (Suc d)
  then have lt: "a \<le> n" by simp
  then have "int a < maxRetries cfg" using Suc.prems(1) by simp
  moreover have "retryableFailure (snd (world a))" using Suc.prems(2) lt by simp
  moreover note Suc.prems(4)
  ultimately have step: "sendLogsFrom cfg world logs a =
           (fst (sendLogs cfg (fst (world a)) (snd (world a)) logs) @
              [LogLocally ''WARN'' ''Retrying log shipment'', Sleep (backoff (snd (world a)) a)] @
              fst (sendLogsFrom cfg world logs (Suc a)),
            snd (sendLogsFrom cfg world logs (Suc a)))"
    by (rule from_retry)
  have ih: "sleeps (fst (sendLogsFrom cfg world logs (Suc a))) =
           map (\<lambda>k. backoff (snd (world k)) k) [Suc a..<Suc n] @
           sleeps (fst (sendLogsFrom cfg world logs (Suc n))) \<and>
         posts (fst (sendLogsFrom cfg world logs (Suc a))) =
           map (\<lambda>k. validateAndCleanLogs (fst (world k)) logs) [Suc a..<Suc n] @
           posts (fst (sendLogsFrom cfg world logs (Suc n))) \<and>
         snd (sendLogsFrom cfg world logs (Suc a)) = snd (sendLogsFrom cfg world logs (Suc n))"
    using Suc.hyps(2) Suc.prems lt by (intro Suc.hyps(1)) auto
  have up: "[a..<Suc n] = a # [Suc a..<Suc n]"
    using lt by (simp add: upt_conv_Cons)
  show ?case
    unfolding step using ih Suc.prems(4) by (simp add: up del: upt_Suc)
qed


lemma withRetry_all_fail:
  assumes m: "1 \<le> maxRetries cfg"
    and all: "\<forall>k. 1 \<le> k \<and> int k \<le> maxRetries cfg \<longrightarrow> retryableFailure (snd (world k))"
    and ser: "\<not> list_ex hasBigInt logs"
  shows "snd (sendLogsWithRetry cfg world logs) =
           snd (sendLogs cfg (fst (world (nat (maxRetries cfg))))
                             (snd (world (nat (maxRetries cfg)))) logs)"
    and "isl (snd (sendLogsWithRetry cfg world logs))"
    and "posts (fst (sendLogsWithRetry cfg world logs)) =
           map (\<lambda>k. validateAndCleanLogs (fst (world k)) logs) [1..<Suc (nat (maxRetries cfg))]"
    and "sleeps (fst (sendLogsWithRetry cfg world logs)) =
           map (\<lambda>k. backoff (snd (world k)) k) [1..<nat (maxRetries cfg)]"
proof -
  define n where "n = nat (maxRetries cfg) - 1"
  have sn: "Suc n = nat (maxRetries cfg)" and lt: "int n < maxRetries cfg"
    and last: "int (Suc n) = maxRetries cfg"
    using m by (simp_all add: n_def)
  have pre: "\<forall>k. 1 \<le> k \<and> k \<le> n \<longrightarrow> retryableFailure (snd (world k))"
    using all lt by auto
  have fin: "retryableFailure (snd (world (Suc n)))"
    using all last by auto
  note un = retries_unfold [where a = 1 and world = world and logs = logs, OF lt pre _ ser]
  note fl = from_last [where a = "Suc n" and world = world and logs = logs, OF last fin ser]
  obtain err where e: "snd (sendLogs cfg (fst (world (Suc n))) (snd (world (Suc n))) logs) = Inl err"
    using sendLogs_retryable [OF ser fin, where n = 0] by blast
  show "snd (sendLogsWithRetry cfg world logs) =
           snd (sendLogs cfg (fst (world (nat (maxRetries cfg))))
                             (snd (world (nat (maxRetries cfg)))) logs)"
    using un fl ser by (simp add: sendLogsWithRetry_def sn [symmetric])
  show "isl (snd (sendLogsWithRetry cfg world logs))"
    using un fl e ser by (simp add: sendLogsWithRetry_def)
  show "posts (fst (sendLogsWithRetry cfg world logs)) =
           map (\<lambda>k. validateAndCleanLogs (fst (world k)) logs) [1..<Suc (nat (maxRetries cfg))]"
    using un fl ser by (simp add: sendLogsWithRetry_def sn [symmetric])
  show "sleeps (fst (sendLogsWithRetry cfg world logs)) =
           map (\<lambda>k. backoff (snd (world k)) k) [1..<nat (maxRetries cfg)]"
    using un fl ser by (simp add: sendLogsWithRetry_def sn [symmetric] del: upt_Suc)
qed

lemma withRetry_retries:
  assumes n: "1 \<le> n" and lt: "int n < maxRetries cfg"
    and pre: "\<forall>k. 1 \<le> k \<and> k \<le> n \<longrightarrow> retryableFailure (snd (world k))"
    and ser: "\<not> list_ex hasBigInt logs"
  shows "take n (sleeps (fst (sendLogsWithRetry cfg world logs))) =
           map (\<lambda>k. backoff (snd (world k)) k) [1..<Suc n]"
    and "n < length (posts (fst (sendLogsWithRetry cfg world logs)))"
proof -
  note un = retries_unfold [where a = 1 and world = world and logs = logs, OF lt pre _ ser]
  have more: "posts (fst (sendLogsFrom cfg world logs (Suc n))) \<noteq> []"
    using lt by (intro from_posts_nonempty ser) simp
  show "take n (sleeps (fst (sendLogsWithRetry cfg world logs))) =
           map (\<lambda>k. backoff (snd (world k)) k) [1..<Suc n]"
    using un ser by (simp add: sendLogsWithRetry_def del: upt_Suc)
  show "n < length (posts (fst (sendLogsWithRetry cfg world logs)))"
    using un more ser by (simp add: sendLogsWithRetry_def del: upt_Suc)
qed

lemma withRetry_client_error:
  assumes n: "1 \<le> n" and le: "int n \<le> maxRetries cfg"
    and pre: "\<forall>k. 1 \<le> k \<and> k < n \<longrightarrow> retryableFailure (snd (world k))"
    and bad: "nonRetryable (snd (world n))"
    and ser: "\<not> list_ex hasBigInt logs"
  shows "snd (sendLogsWithRetry cfg world logs) =
           snd (sendLogs cfg (fst (world n)) (snd (world n)) logs)"
    and "isl (snd (sendLogsWithRetry cfg world logs))"
    and "length (posts (fst (sendLogsWithRetry cfg world logs))) = n"
    and "length (sleeps (fst (sendLogsWithRetry cfg world logs))) = n - 1"
proof -
  define j where "j = n - 1"
  have sj: "Suc j = n" and lt: "int j < maxRetries cfg"
    using n le by (simp_all add: j_def)
  have pre': "\<forall>k. 1 \<le> k \<and> k \<le> j \<longrightarrow> retryableFailure (snd (world k))"
    using pre sj by auto
  note un = retries_unfold [where a = 1 and world = world and logs = logs, OF lt pre' _ ser,
      unfolded sj]
  note ce = from_client_error [where a = n and world = world and logs = logs, OF le bad ser]
  obtain err where e: "snd (sendLogs cfg (fst (world n)) (snd (world n)) logs) = Inl err"
    using sendLogs_nonRetryable [OF ser bad] by blast
  show "snd (sendLogsWithRetry cfg world logs) =
           snd (sendLogs cfg (fst (world n)) (snd (world n)) logs)"
    using un ce n ser by (simp add: sendLogsWithRetry_def)
  show "isl (snd (sendLogsWithRetry cfg world logs))"
    using un ce e n ser by (simp add: sendLogsWithRetry_def)
  show "length (posts (fst (sendLogsWithRetry cfg world logs))) = n"
    using un ce n ser by (simp add: sendLogsWithRetry_def)
  show "length (sleeps (fst (sendLogsWithRetry cfg world logs))) = n - 1"
    using un ce n ser by (simp add: sendLogsWithRetry_def)
qed

lemma flushBegin_Some:
  "enabled (config s) \<Longrightarrow> logQueue s \<noteq> [] \<Longrightarrow>
   flushBegin s = Some (take (nat (batchSize (config s))) (logQueue s),
                        s\<lparr>logQueue := drop (nat (batchSize (config s))) (logQueue s)\<rparr>)"
  by (simp add: flushBegin_def)

lemma flushBegin_SomeD:
  "flushBegin s = Some (batch, s1) \<Longrightarrow>
   enabled (config s) \<and> logQueue s \<noteq> [] \<and> batch = take (nat (batchSize (config s))) (logQueue s) \<and>
   s1 = s\<lparr>logQueue := drop (nat (batchSize (config s))) (logQueue s)\<rparr>"
  by (auto simp: flushBegin_def split: if_splits)

lemma flush_failure:
  assumes "flushBegin s = Some (batch, s1)"
    and "snd (sendLogsWithRetry (config s) world batch) = Inl err"
  shows "flush world now s =
           (fst (sendLogsWithRetry (config s) world batch) @
              [LogLocally ''ERROR'' ''Failed to ship logs after retries''], Inl err, s)"
proof -
  from flushBegin_SomeD [OF assms(1)]
  have b: "batch = take (nat (batchSize (config s))) (logQueue s)"
    and s1: "s1 = s\<lparr>logQueue := drop (nat (batchSize (config s))) (logQueue s)\<rparr>"
    by simp_all
  obtain fx where r: "sendLogsWithRetry (config s) world batch = (fx, Inl err)"
    using assms(2) by (cases "sendLogsWithRetry (config s) world batch") simp
  show ?thesis
    by (simp add: flush_def assms(1) r flushEnd_def) (simp add: b s1)
qed


lemma sendLogs_unserializable:
  "list_ex hasBigInt (validateAndCleanLogs env logs) \<Longrightarrow>
   sendLogs cfg env res logs = (cleaningWarnings logs, Inl NotSerializable)"
  by (simp add: sendLogs_def Let_def)

lemma unserializable_from:
  assumes bad: "\<forall>k. list_ex hasBigInt (validateAndCleanLogs (fst (world k)) logs)"
    and "int a \<le> maxRetries cfg"
  shows "posts (fst (sendLogsFrom cfg world logs a)) = [] \<and>
         sleeps (fst (sendLogsFrom cfg world logs a)) =
           map (\<lambda>k. 500 * 2 ^ (k - 1)) [a..<nat (maxRetries cfg)] \<and>
         snd (sendLogsFrom cfg world logs a) = Inl NotSerializable"
  using assms(2)
proof (induction "nat (maxRetries cfg) - a" arbitrary: a)
  case 0
  then have last: "int a = maxRetries cfg" by simp
  have s: "sendLogs cfg (fst (world a)) (snd (world a)) logs =
             (cleaningWarnings logs, Inl NotSerializable)"
    using bad by (simp add: sendLogs_unserializable)
  show ?case
    using last by (subst (1 2 3) sendLogsFrom.simps) (simp add: s Let_def clientError_def)
next
  case (Suc d)
  then have lt: "int a < maxRetries cfg" by simp
  have s: "sendLogs cfg (fst (world a)) (snd (world a)) logs =
             (cleaningWarnings logs, Inl NotSerializable)"
    using bad by (simp add: sendLogs_unserializable)
  have step: "sendLogsFrom cfg world logs a =
                (cleaningWarnings logs @
                   [LogLocally ''WARN'' ''Retrying log shipment'', Sleep (500 * 2 ^ (a - 1))] @
                   fst (sendLogsFrom cfg world logs (Suc a)),
                 snd (sendLogsFrom cfg world logs (Suc a)))"
    using lt by (subst sendLogsFrom.simps) (simp add: s Let_def clientError_def)
  have ih: "posts (fst (sendLogsFrom cfg world logs (Suc a))) = [] \<and>
            sleeps (fst (sendLogsFrom cfg world logs (Suc a))) =
              map (\<lambda>k. 500 * 2 ^ (k - 1)) [Suc a..<nat (maxRetries cfg)] \<and>
            snd (sendLogsFrom cfg world logs (Suc a)) = Inl NotSerializable"
    using Suc.hyps(2) lt by (intro Suc.hyps(1)) auto
  have up: "[a..<nat (maxRetries cfg)] = a # [Suc a..<nat (maxRetries cfg)]"
    using lt by (simp add: upt_conv_Cons)
  show ?case
    unfolding step using ih by (simp add: up)
qed

lemma not_ex_take: "\<not> list_ex P xs \<Longrightarrow> \<not> list_ex P (take n xs)"
  by (auto simp: list_ex_iff dest: in_set_takeD)
lemma posts_from_cleaned:
  "set (posts (fst (sendLogsFrom cfg world logs a))) \<subseteq>
     range (\<lambda>k. validateAndCleanLogs (fst (world k)) logs)"
proof (induction "nat (maxRetries cfg + 1 - int a)" arbitrary: a)
  case 0
  then have "\<not> int a \<le> maxRetries cfg" by simp
  then show ?case by (subst sendLogsFrom.simps) simp
next
  case (Suc d)
  then have le: "int a \<le> maxRetries cfg" by simp
  obtain fx r where s: "sendLogs cfg (fst (world a)) (snd (world a)) logs = (fx, r)"
    by (cases "sendLogs cfg (fst (world a)) (snd (world a)) logs")
  have p: "posts fx = [] \<or> posts fx = [validateAndCleanLogs (fst (world a)) logs]"
    using sendLogs_posts_cases [of cfg "fst (world a)" "snd (world a)" logs]
    by (simp add: s split: if_splits)
  have ih: "set (posts (fst (sendLogsFrom cfg world logs (Suc a)))) \<subseteq>
              range (\<lambda>k. validateAndCleanLogs (fst (world k)) logs)"
    using Suc.hyps(2) by (intro Suc.hyps(1)) simp
  show ?case
    using le p ih
    by (subst sendLogsFrom.simps) (auto simp: s Let_def split: sum.splits)
qed

lemma testShipper_constructed:
  "newLogShipper testConfig = ([LogLocally ''INFO'' ''LogShipper initialized''], Inr testShipper)"
  by (simp add: newLogShipper_def validateConfig_def hasApiKey_def optStr_def startsWith_def)

lemma bigEntry_cleaned: "list_ex hasBigInt (validateAndCleanLogs testEnv [bigEntry])"
proof -
  have lvl: "mapLogLevelToValidEnum ''info'' = JsString ''info''"
    by code_simp
  have "stillValid (cleanLog testEnv 0 bigEntry)"
    by (simp add: stillValid_def cleanLog_def orElse_def lvl)
  moreover have "hasBigInt (cleanLog testEnv 0 bigEntry)"
    by (simp add: hasBigInt_def cleanLog_def)
  ultimately show ?thesis
    by (simp add: validateAndCleanLogs_def)
qed

subsection \<open>Retry and backoff\<close>

text \<open>
  C3. In \<open>sendLogsWithRetry\<close>, for a batch that \<open>JSON.stringify\<close> accepts, so
  that every attempt reaches its \<open>fetch\<close>: when the attempts 1 to \<open>n\<close> fail in a
  retryable way (HTTP 5xx, 429 or a network error) and \<open>n\<close> is below
  \<open>maxRetries\<close>, the first \<open>n\<close> pauses of the loop are, for each attempt \<open>k\<close>
  of these, 1000 * 2^(k-1) ms after a 429 and 500 * 2^(k-1) ms otherwise, and an attempt
  \<open>n + 1\<close> is made. When all \<open>maxRetries\<close> attempts fail in a retryable way, the
  error of the last attempt is raised, after exactly \<open>maxRetries\<close> attempts and no
  pause after the last. When attempt \<open>n\<close> meets a non-retryable status, its error is
  raised at once: there are exactly \<open>n\<close> attempts, so exactly one when it is the
  first. And a \<open>flush\<close> whose first attempt meets a non-retryable status makes exactly
  one attempt, raises, and leaves the shipper as it was before, the attempted records back in
  the queue.

  A batch with a \<open>bigint\<close> in its metadata never reaches \<open>fetch\<close>: every attempt
  throws the \<open>TypeError\<close> of \<open>JSON.stringify\<close>, which carries no status and is
  retried like a network error, with pauses of 500 * 2^(k-1) ms and no POST at all.
\<close>

theorem retry_backoff_schedule:
  "(\<not> list_ex hasBigInt logs \<and> 1 \<le> n \<and> int n < maxRetries cfg \<and>
    (\<forall>k. 1 \<le> k \<and> k \<le> n \<longrightarrow> retryableFailure (snd (world k))) \<longrightarrow>
      take n (sleeps (fst (sendLogsWithRetry cfg world logs))) =
        map (\<lambda>k. backoff (snd (world k)) k) [1..<Suc n] \<and>
      n < length (posts (fst (sendLogsWithRetry cfg world logs)))) \<and>
   (\<not> list_ex hasBigInt logs \<and> 1 \<le> maxRetries cfg \<and>
    (\<forall>k. 1 \<le> k \<and> int k \<le> maxRetries cfg \<longrightarrow> retryableFailure (snd (world k))) \<longrightarrow>
      isl (snd (sendLogsWithRetry cfg world logs)) \<and>
      snd (sendLogsWithRetry cfg world logs) =
        snd (sendLogs cfg (fst (world (nat (maxRetries cfg))))
               (snd (world (nat (maxRetries cfg)))) logs) \<and>
      length (posts (fst (sendLogsWithRetry cfg world logs))) = nat (maxRetries cfg) \<and>
      sleeps (fst (sendLogsWithRetry cfg world logs)) =
        map (\<lambda>k. backoff (snd (world k)) k) [1..<nat (maxRetries cfg)]) \<and>
   (\<not> list_ex hasBigInt logs \<and> 1 \<le> n \<and> int n \<le> maxRetries cfg \<and>
    (\<forall>k. 1 \<le> k \<and> k < n \<longrightarrow> retryableFailure (snd (world k))) \<and>
    nonRetryable (snd (world n)) \<longrightarrow>
      isl (snd (sendLogsWithRetry cfg world logs)) \<and>
      snd (sendLogsWithRetry cfg world logs) =
        snd (sendLogs cfg (fst (world n)) (snd (world n)) logs) \<and>
      length (posts (fst (sendLogsWithRetry cfg world logs))) = n \<and>
      length (sleeps (fst (sendLogsWithRetry cfg world logs))) = n - 1) \<and>
   (\<not> list_ex hasBigInt (logQueue s) \<and> enabled (config s) \<and> logQueue s \<noteq> [] \<and>
    1 \<le> maxRetries (config s) \<and> nonRetryable (snd (world 1)) \<longrightarrow>
      isl (fst (snd (flush world now s))) \<and>
      length (posts (fst (flush world now s))) = 1 \<and>
      snd (snd (flush world now s)) = s) \<and>
   (1 \<le> maxRetries cfg \<and>
    (\<forall>k. list_ex hasBigInt (validateAndCleanLogs (fst (world k)) logs)) \<longrightarrow>
      snd (sendLogsWithRetry cfg world logs) = Inl NotSerializable \<and>
      posts (fst (sendLogsWithRetry cfg world logs)) = [] \<and>
      sleeps (fst (sendLogsWithRetry cfg world logs)) =
        map (\<lambda>k. 500 * 2 ^ (k - 1)) [1..<nat (maxRetries cfg)])"
proof (intro conjI impI)
  assume h: "\<not> list_ex hasBigInt logs \<and> 1 \<le> n \<and> int n < maxRetries cfg \<and>
             (\<forall>k. 1 \<le> k \<and> k \<le> n \<longrightarrow> retryableFailure (snd (world k)))"
  then show "take n (sleeps (fst (sendLogsWithRetry cfg world logs))) =
               map (\<lambda>k. backoff (snd (world k)) k) [1..<Suc n]"
    and "n < length (posts (fst (sendLogsWithRetry cfg world logs)))"
    using withRetry_retries [of n cfg world logs] by blast+
next
  assume h: "\<not> list_ex hasBigInt logs \<and> 1 \<le> maxRetries cfg \<and>
             (\<forall>k. 1 \<le> k \<and> int k \<le> maxRetries cfg \<longrightarrow> retryableFailure (snd (world k)))"
  then have m: "1 \<le> maxRetries cfg"
    and all: "\<forall>k. 1 \<le> k \<and> int k \<le> maxRetries cfg \<longrightarrow> retryableFailure (snd (world k))"
    and ser: "\<not> list_ex hasBigInt logs"
    by simp_all
  show "isl (snd (sendLogsWithRetry cfg world logs))"
    by (rule withRetry_all_fail(2) [OF m all ser])
  show "snd (sendLogsWithRetry cfg world logs) =
          snd (sendLogs cfg (fst (world (nat (maxRetries cfg))))
                 (snd (world (nat (maxRetries cfg)))) logs)"
    by (rule withRetry_all_fail(1) [OF m all ser])
  show "length (posts (fst (sendLogsWithRetry cfg world logs))) = nat (maxRetries cfg)"
    using m by (simp add: withRetry_all_fail(3) [OF m all ser] del: upt_Suc)
  show "sleeps (fst (sendLogsWithRetry cfg world logs)) =
          map (\<lambda>k. backoff (snd (world k)) k) [1..<nat (maxRetries cfg)]"
    by (rule withRetry_all_fail(4) [OF m all ser])
next
  assume h: "\<not> list_ex hasBigInt logs \<and> 1 \<le> n \<and> int n \<le> maxRetries cfg \<and>
             (\<forall>k. 1 \<le> k \<and> k < n \<longrightarrow> retryableFailure (snd (world k))) \<and>
             nonRetryable (snd (world n))"
  then have n: "1 \<le> n" and le: "int n \<le> maxRetries cfg"
    and pre: "\<forall>k. 1 \<le> k \<and> k < n \<longrightarrow> retryableFailure (snd (world k))"
    and bad: "nonRetryable (snd (world n))"
    and ser: "\<not> list_ex hasBigInt logs"
    by simp_all
  show "isl (snd (sendLogsWithRetry cfg world logs))"
    by (rule withRetry_client_error(2) [OF n le pre bad ser])
  show "snd (sendLogsWithRetry cfg world logs) =
          snd (sendLogs cfg (fst (world n)) (snd (world n)) logs)"
    by (rule withRetry_client_error(1) [OF n le pre bad ser])
  show "length (posts (fst (sendLogsWithRetry cfg world logs))) = n"
    by (rule withRetry_client_error(3) [OF n le pre bad ser])
  show "length (sleeps (fst (sendLogsWithRetry cfg world logs))) = n - 1"
    by (rule withRetry_client_error(4) [OF n le pre bad ser])
next
  assume h: "\<not> list_ex hasBigInt (logQueue s) \<and> enabled (config s) \<and> logQueue s \<noteq> [] \<and>
             1 \<le> maxRetries (config s) \<and> nonRetryable (snd (world 1))"
  let ?batch = "take (nat (batchSize (config s))) (logQueue s)"
  from h have fb: "flushBegin s =
      Some (?batch, s\<lparr>logQueue := drop (nat (batchSize (config s))) (logQueue s)\<rparr>)"
    by (simp add: flushBegin_Some)
  from h have one: "(1::nat) \<le> 1" and le: "int 1 \<le> maxRetries (config s)"
    and pre: "\<forall>k. 1 \<le> k \<and> k < (1::nat) \<longrightarrow> retryableFailure (snd (world k))"
    and bad: "nonRetryable (snd (world 1))"
    by simp_all
  from h have ser: "\<not> list_ex hasBigInt ?batch"
    by (simp add: not_ex_take)
  note ce = withRetry_client_error [OF one le pre bad ser]
  obtain err where e: "snd (sendLogsWithRetry (config s) world ?batch) = Inl err"
    using ce(2) by (cases "snd (sendLogsWithRetry (config s) world ?batch)") simp_all
  note ff = flush_failure [OF fb e, of now]
  show "isl (fst (snd (flush world now s)))"
    by (simp add: ff)
  show "length (posts (fst (flush world now s))) = 1"
    using ce(3) by (simp add: ff)
  show "snd (snd (flush world now s)) = s"
    by (simp add: ff)
next
  assume h: "1 \<le> maxRetries cfg \<and>
             (\<forall>k. list_ex hasBigInt (validateAndCleanLogs (fst (world k)) logs))"
  then have bad: "\<forall>k. list_ex hasBigInt (validateAndCleanLogs (fst (world k)) logs)"
    and le: "int 1 \<le> maxRetries cfg"
    by simp_all
  from unserializable_from [OF bad le]
  show "snd (sendLogsWithRetry cfg world logs) = Inl NotSerializable"
    and "posts (fst (sendLogsWithRetry cfg world logs)) = []"
    and "sleeps (fst (sendLogsWithRetry cfg world logs)) =
           map (\<lambda>k. 500 * 2 ^ (k - 1)) [1..<nat (maxRetries cfg)]"
    by (simp_all add: sendLogsWithRetry_def)
qed

text \<open>
  The theorem at work with \<open>maxRetries = 3\<close>. A 503, then a 429, then a 503: three
  attempts, pauses of 500 ms and 2000 ms, and the error is raised. A 400 on the first
  attempt of a \<open>flush\<close> with one queued record: one attempt, the error is raised, and
  the record is in the queue again. And a record with a \<open>bigint\<close> in its metadata:
  no POST, pauses of 500 ms and 1000 ms, and the \<open>TypeError\<close> is raised.
\<close>

theorem retry_backoff_schedule_witness:
  "sleeps (fst (sendLogsWithRetry testConfig
                  (\<lambda>n. (testEnv, Response (if n = 2 then 429 else 503) False))
                  [entry ''one''])) = [500, 2000] \<and>
   length (posts (fst (sendLogsWithRetry testConfig
                  (\<lambda>n. (testEnv, Response (if n = 2 then 429 else 503) False))
                  [entry ''one'']))) = 3 \<and>
   isl (snd (sendLogsWithRetry testConfig
                  (\<lambda>n. (testEnv, Response (if n = 2 then 429 else 503) False))
                  [entry ''one''])) \<and>
   length (posts (fst (sendLogsWithRetry testConfig (answering 400) [entry ''one'']))) = 1 \<and>
   isl (fst (snd (flush (answering 400) 7 (testShipper\<lparr>logQueue := [entry ''one'']\<rparr>)))) \<and>
   length (posts (fst (flush (answering 400) 7 (testShipper\<lparr>logQueue := [entry ''one'']\<rparr>)))) = 1 \<and>
   logQueue (snd (snd (flush (answering 400) 7 (testShipper\<lparr>logQueue := [entry ''one'']\<rparr>)))) =
     [entry ''one''] \<and>
   posts (fst (sendLogsWithRetry testConfig (answering 200) [bigEntry])) = [] \<and>
   sleeps (fst (sendLogsWithRetry testConfig (answering 200) [bigEntry])) = [500, 1000] \<and>
   snd (sendLogsWithRetry testConfig (answering 200) [bigEntry]) = Inl NotSerializable"
proof -
  let ?w = "\<lambda>n::nat. (testEnv, Response (if n = 2 then 429 else 503) False)"
  have up: "[1..<3] = [1, 2::nat]"
    by (simp add: upt_conv_Cons)
  have ser: "\<not> list_ex hasBigInt [entry ''one'']"
    by (simp add: hasBigInt_def)
  have all: "\<not> list_ex hasBigInt [entry ''one''] \<and> 1 \<le> maxRetries testConfig \<and>
             (\<forall>k. 1 \<le> k \<and> int k \<le> maxRetries testConfig \<longrightarrow> retryableFailure (snd (?w k)))"
    using ser by simp
  have bad: "\<not> list_ex hasBigInt [entry ''one''] \<and> 1 \<le> (1::nat) \<and>
             int 1 \<le> maxRetries testConfig \<and>
             (\<forall>k. 1 \<le> k \<and> k < (1::nat) \<longrightarrow> retryableFailure (snd (answering 400 k))) \<and>
             nonRetryable (snd (answering 400 1))"
    using ser by simp
  have fl: "\<not> list_ex hasBigInt (logQueue (testShipper\<lparr>logQueue := [entry ''one'']\<rparr>)) \<and>
            enabled (config (testShipper\<lparr>logQueue := [entry ''one'']\<rparr>)) \<and>
            logQueue (testShipper\<lparr>logQueue := [entry ''one'']\<rparr>) \<noteq> [] \<and>
            1 \<le> maxRetries (config (testShipper\<lparr>logQueue := [entry ''one'']\<rparr>)) \<and>
            nonRetryable (snd (answering 400 1))"
    using ser by simp
  have big: "1 \<le> maxRetries testConfig \<and>
             (\<forall>k. list_ex hasBigInt (validateAndCleanLogs (fst (answering 200 k)) [bigEntry]))"
    using bigEntry_cleaned by simp
  from retry_backoff_schedule [of "[entry ''one'']" 1 testConfig ?w testShipper 0] all
  have "isl (snd (sendLogsWithRetry testConfig ?w [entry ''one''])) \<and>
        length (posts (fst (sendLogsWithRetry testConfig ?w [entry ''one'']))) =
          nat (maxRetries testConfig) \<and>
        sleeps (fst (sendLogsWithRetry testConfig ?w [entry ''one''])) =
          map (\<lambda>k. backoff (snd (?w k)) k) [1..<nat (maxRetries testConfig)]"
    by blast
  then have a: "isl (snd (sendLogsWithRetry testConfig ?w [entry ''one''])) \<and>
           length (posts (fst (sendLogsWithRetry testConfig ?w [entry ''one'']))) = 3 \<and>
           sleeps (fst (sendLogsWithRetry testConfig ?w [entry ''one''])) =
             map (\<lambda>k. backoff (snd (?w k)) k) [1..<3]"
    by simp
  from retry_backoff_schedule
         [of "[entry ''one'']" 1 testConfig "answering 400"
             "testShipper\<lparr>logQueue := [entry ''one'']\<rparr>" 7] bad fl
  have b: "length (posts (fst (sendLogsWithRetry testConfig (answering 400) [entry ''one'']))) = 1 \<and>
           isl (fst (snd (flush (answering 400) 7 (testShipper\<lparr>logQueue := [entry ''one'']\<rparr>)))) \<and>
           length (posts (fst (flush (answering 400) 7 (testShipper\<lparr>logQueue := [entry ''one'']\<rparr>)))) = 1 \<and>
           snd (snd (flush (answering 400) 7 (testShipper\<lparr>logQueue := [entry ''one'']\<rparr>))) =
             testShipper\<lparr>logQueue := [entry ''one'']\<rparr>"
    by blast
  from retry_backoff_schedule [of "[bigEntry]" 1 testConfig "answering 200" testShipper 0] big
  have "snd (sendLogsWithRetry testConfig (answering 200) [bigEntry]) = Inl NotSerializable \<and>
        posts (fst (sendLogsWithRetry testConfig (answering 200) [bigEntry])) = [] \<and>
        sleeps (fst (sendLogsWithRetry testConfig (answering 200) [bigEntry])) =
          map (\<lambda>k. 500 * 2 ^ (k - 1)) [1..<nat (maxRetries testConfig)]"
    by blast
  then have c: "snd (sendLogsWithRetry testConfig (answering 200) [bigEntry]) = Inl NotSerializable \<and>
        posts (fst (sendLogsWithRetry testConfig (answering 200) [bigEntry])) = [] \<and>
        sleeps (fst (sendLogsWithRetry testConfig (answering 200) [bigEntry])) =
          map (\<lambda>k. 500 * 2 ^ (k - 1)) [1..<3]"
    by simp
  have "map (\<lambda>k. backoff (snd (?w k)) k) [1..<3] = [500, 2000]"
    unfolding up by simp
  with a have d: "sleeps (fst (sendLogsWithRetry testConfig ?w [entry ''one''])) = [500, 2000]"
    by presburger
  have "map (\<lambda>k::nat. (500::nat) * 2 ^ (k - 1)) [1..<3] = [500, 1000]"
    unfolding up by simp
  with c have e: "sleeps (fst (sendLogsWithRetry testConfig (answering 200) [bigEntry])) =
                    [500, 1000]"
    by presburger
  from a b c d e show ?thesis by simp
qed
subsection \<open>Construction\<close>

text \<open>
  C8, as stated, speaks of every configuration. The constructor returns before
  \<open>validateConfig\<close> when \<open>enabled\<close> is false, so a disabled configuration with an
  empty endpoint and a required but missing API key constructs. And a missing key that is not
  required is only the third of four checks: with an endpoint that is not HTTPS the warning
  is written and construction still throws.
\<close>

theorem disabled_config_is_not_validated:
  "\<not> isl (snd (newLogShipper
                 \<lparr>endpoint = [], apiKey = None, requireApiKey = Some True, batchSize = 500,
                  flushInterval = 5000, maxRetries = 3, enabled = False\<rparr>)) \<and>
   newLogShipper
     \<lparr>endpoint = ''http://logs.example.com/api/logs'', apiKey = None, requireApiKey = None,
      batchSize = 500, flushInterval = 5000, maxRetries = 3, enabled = True\<rparr> =
     ([LogLocally ''WARN''
         ''API key not configured. Log shipping will work now but will require an API key in the future.''],
      Inl ''LogShipper: endpoint must use HTTPS'')"
  by (simp add: newLogShipper_def validateConfig_def hasApiKey_def optStr_def startsWith_def)

text \<open>
  C8, amended. For every enabled configuration, construction throws exactly when the
  endpoint is empty or does not start with \<open>https://\<close>, or \<open>requireApiKey\<close> is true
  and no API key is present. For an enabled configuration with a non-empty HTTPS endpoint,
  no API key and none required, construction succeeds, starts the timer, and writes the
  warning and the initialization line and nothing else. A disabled configuration is not
  validated: construction succeeds, writes nothing and starts no timer.
\<close>

theorem construction_validates_enabled_config:
  "(enabled cfg \<longrightarrow>
      isl (snd (newLogShipper cfg)) =
        (endpoint cfg = [] \<or> \<not> startsWith ''https://'' (endpoint cfg) \<or>
         (requireApiKey cfg = Some True \<and> \<not> hasApiKey cfg))) \<and>
   (enabled cfg \<and> endpoint cfg \<noteq> [] \<and> startsWith ''https://'' (endpoint cfg) \<and>
    \<not> hasApiKey cfg \<and> requireApiKey cfg \<noteq> Some True \<longrightarrow>
      newLogShipper cfg =
        ([LogLocally ''WARN''
            ''API key not configured. Log shipping will work now but will require an API key in the future.'',
          LogLocally ''INFO'' ''LogShipper initialized''],
         Inr \<lparr>config = cfg, logQueue = [], flushTimer = Some (flushInterval cfg),
              isShuttingDown = False, lastSuccessfulFlush = 0\<rparr>)) \<and>
   (\<not> enabled cfg \<longrightarrow>
      newLogShipper cfg =
        ([], Inr \<lparr>config = cfg, logQueue = [], flushTimer = None, isShuttingDown = False,
                  lastSuccessfulFlush = 0\<rparr>))"
proof (intro conjI impI)
  assume "enabled cfg"
  then show "isl (snd (newLogShipper cfg)) =
        (endpoint cfg = [] \<or> \<not> startsWith ''https://'' (endpoint cfg) \<or>
         (requireApiKey cfg = Some True \<and> \<not> hasApiKey cfg))"
    by (auto simp: newLogShipper_def validateConfig_def Let_def)
next
  assume "enabled cfg \<and> endpoint cfg \<noteq> [] \<and> startsWith ''https://'' (endpoint cfg) \<and>
          \<not> hasApiKey cfg \<and> requireApiKey cfg \<noteq> Some True"
  then show "newLogShipper cfg =
        ([LogLocally ''WARN''
            ''API key not configured. Log shipping will work now but will require an API key in the future.'',
          LogLocally ''INFO'' ''LogShipper initialized''],
         Inr \<lparr>config = cfg, logQueue = [], flushTimer = Some (flushInterval cfg),
              isShuttingDown = False, lastSuccessfulFlush = 0\<rparr>)"
    by (simp add: newLogShipper_def validateConfig_def Let_def)
next
  assume "\<not> enabled cfg"
  then show "newLogShipper cfg =
        ([], Inr \<lparr>config = cfg, logQueue = [], flushTimer = None, isShuttingDown = False,
                  lastSuccessfulFlush = 0\<rparr>)"
    by (simp add: newLogShipper_def)
qed

text \<open>
  The theorem at work on the configuration of the tests: without its API key it
  constructs with the warning; with \<open>requireApiKey\<close> set as well it throws; disabled, it
  constructs without a timer.
\<close>

theorem construction_validates_enabled_config_witness:
  "snd (newLogShipper (testConfig\<lparr>apiKey := None\<rparr>)) =
     Inr (testShipper\<lparr>config := testConfig\<lparr>apiKey := None\<rparr>\<rparr>) \<and>
   fst (newLogShipper (testConfig\<lparr>apiKey := None\<rparr>)) =
     [LogLocally ''WARN''
        ''API key not configured. Log shipping will work now but will require an API key in the future.'',
      LogLocally ''INFO'' ''LogShipper initialized''] \<and>
   isl (snd (newLogShipper (testConfig\<lparr>apiKey := None, requireApiKey := Some True\<rparr>))) \<and>
   flushTimer (projr (snd (newLogShipper (testConfig\<lparr>enabled := False\<rparr>)))) = None"
proof -
  have ok: "enabled (testConfig\<lparr>apiKey := None\<rparr>) \<and> endpoint (testConfig\<lparr>apiKey := None\<rparr>) \<noteq> [] \<and>
            startsWith ''https://'' (endpoint (testConfig\<lparr>apiKey := None\<rparr>)) \<and>
            \<not> hasApiKey (testConfig\<lparr>apiKey := None\<rparr>) \<and>
            requireApiKey (testConfig\<lparr>apiKey := None\<rparr>) \<noteq> Some True"
    by (simp add: startsWith_def hasApiKey_def optStr_def)
  have req: "enabled (testConfig\<lparr>apiKey := None, requireApiKey := Some True\<rparr>) \<and>
             requireApiKey (testConfig\<lparr>apiKey := None, requireApiKey := Some True\<rparr>) = Some True \<and>
             \<not> hasApiKey (testConfig\<lparr>apiKey := None, requireApiKey := Some True\<rparr>)"
    by (simp add: hasApiKey_def optStr_def)
  have off: "\<not> enabled (testConfig\<lparr>enabled := False\<rparr>)"
    by simp
  from construction_validates_enabled_config [of "testConfig\<lparr>apiKey := None\<rparr>"] ok
  have a: "newLogShipper (testConfig\<lparr>apiKey := None\<rparr>) =
        ([LogLocally ''WARN''
            ''API key not configured. Log shipping will work now but will require an API key in the future.'',
          LogLocally ''INFO'' ''LogShipper initialized''],
         Inr \<lparr>config = testConfig\<lparr>apiKey := None\<rparr>, logQueue = [],
              flushTimer = Some (flushInterval (testConfig\<lparr>apiKey := None\<rparr>)),
              isShuttingDown = False, lastSuccessfulFlush = 0\<rparr>)"
    by blast
  from construction_validates_enabled_config
         [of "testConfig\<lparr>apiKey := None, requireApiKey := Some True\<rparr>"] req
  have b: "isl (snd (newLogShipper (testConfig\<lparr>apiKey := None, requireApiKey := Some True\<rparr>)))"
    by blast
  from construction_validates_enabled_config [of "testConfig\<lparr>enabled := False\<rparr>"] off
  have c: "newLogShipper (testConfig\<lparr>enabled := False\<rparr>) =
        ([], Inr \<lparr>config = testConfig\<lparr>enabled := False\<rparr>, logQueue = [], flushTimer = None,
                  isShuttingDown = False, lastSuccessfulFlush = 0\<rparr>)"
    by blast
  show ?thesis
    unfolding a c using b by simp
qed

subsection \<open>Normalization before transport\<close>

lemma validateAndCleanLogs_iff:
  "r \<in> set (validateAndCleanLogs env logs) \<longleftrightarrow>
     (\<exists>i<length logs. r = cleanLog env i (logs ! i)) \<and> stillValid r"
proof -
  have "set (map (\<lambda>(i, entry). cleanLog env i entry) (enumerate 0 logs)) =
          {cleanLog env i (logs ! i) | i. i < length logs}"
    by (auto simp: in_set_enumerate_eq image_iff)
  then show ?thesis
    by (auto simp: validateAndCleanLogs_def)
qed

text \<open>A lower-cased string has no upper-case letter, so it is not the name of a method.\<close>

lemma toLowerChar_lower: "toLowerChar c \<notin> set ''ABCDEFGHIJKLMNOPQRSTUVWXYZ''"
proof (cases "c \<in> set ''ABCDEFGHIJKLMNOPQRSTUVWXYZ''")
  case True
  then show ?thesis
    by (auto simp: toLowerChar_def)
next
  case False
  then have "toLowerChar c = c"
    by (simp add: toLowerChar_def)
  with False show ?thesis by simp
qed

lemma toLowerCase_lower: "c \<in> set (toLowerCase x) \<Longrightarrow> c \<notin> set ''ABCDEFGHIJKLMNOPQRSTUVWXYZ''"
  using toLowerChar_lower by (auto simp: toLowerCase_def)

lemma lower_not_method:
  "toLowerCase x \<noteq> ''hasOwnProperty''" "toLowerCase x \<noteq> ''isPrototypeOf''"
  "toLowerCase x \<noteq> ''propertyIsEnumerable''" "toLowerCase x \<noteq> ''toLocaleString''"
  "toLowerCase x \<noteq> ''toString''" "toLowerCase x \<noteq> ''valueOf''"
  "toLowerCase x \<noteq> ''__defineGetter__''" "toLowerCase x \<noteq> ''__defineSetter__''"
  "toLowerCase x \<noteq> ''__lookupGetter__''" "toLowerCase x \<noteq> ''__lookupSetter__''"
proof -
  have no: "w \<noteq> toLowerCase x" if "\<exists>c \<in> set w. c \<in> set ''ABCDEFGHIJKLMNOPQRSTUVWXYZ''" for w
    using that toLowerCase_lower [of _ x] by blast
  show "toLowerCase x \<noteq> ''hasOwnProperty''" using no [of "''hasOwnProperty''"] by simp
  show "toLowerCase x \<noteq> ''isPrototypeOf''" using no [of "''isPrototypeOf''"] by simp
  show "toLowerCase x \<noteq> ''propertyIsEnumerable''" using no [of "''propertyIsEnumerable''"] by simp
  show "toLowerCase x \<noteq> ''toLocaleString''" using no [of "''toLocaleString''"] by simp
  show "toLowerCase x \<noteq> ''toString''" using no [of "''toString''"] by simp
  show "toLowerCase x \<noteq> ''valueOf''" using no [of "''valueOf''"] by simp
  show "toLowerCase x \<noteq> ''__defineGetter__''" using no [of "''__defineGetter__''"] by simp
  show "toLowerCase x \<noteq> ''__defineSetter__''" using no [of "''__defineSetter__''"] by simp
  show "toLowerCase x \<noteq> ''__lookupGetter__''" using no [of "''__lookupGetter__''"] by simp
  show "toLowerCase x \<noteq> ''__lookupSetter__''" using no [of "''__lookupSetter__''"] by simp
qed

lemma inherited_lower:
  "map_of objectPrototype (toLowerCase x) =
     (if toLowerCase x = ''constructor'' then Some (JsFunction ''Object'')
      else if toLowerCase x = ''__proto__'' then Some ObjectPrototype
      else None)"
  by (simp add: objectPrototype_def lower_not_method)

lemma level_ordinary:
  assumes "\<not> inheritedLevel l"
  shows "\<exists>s \<in> set validLevels. mapLogLevelToValidEnum l = JsString s"
proof -
  let ?key = "toLowerCase (orElse l ''info'')"
  from assms have none: "map_of objectPrototype ?key = None"
    by (simp add: inherited_lower inheritedLevel_def)
  show ?thesis
  proof (cases "map_of levelMap ?key")
    case None
    with none show ?thesis
      by (simp add: mapLogLevelToValidEnum_def Let_def getProperty_def valueOr_def validLevels_def)
  next
    case (Some v)
    then have "(?key, v) \<in> set levelMap"
      by (rule map_of_SomeD)
    then have "v \<in> set validLevels"
      by (auto simp: levelMap_def validLevels_def)
    moreover from this have "v \<noteq> []"
      by (auto simp: validLevels_def)
    ultimately show ?thesis
      using Some by (simp add: mapLogLevelToValidEnum_def Let_def getProperty_def valueOr_def)
  qed
qed

lemma level_inherited:
  assumes "inheritedLevel l"
  shows "mapLogLevelToValidEnum l = JsFunction ''Object'' \<or>
         mapLogLevelToValidEnum l = ObjectPrototype"
proof -
  let ?key = "toLowerCase (orElse l ''info'')"
  from assms have key: "?key = ''constructor'' \<or> ?key = ''__proto__''"
    by (simp add: inheritedLevel_def)
  then have own: "map_of levelMap ?key = None"
    by (auto simp: levelMap_def)
  from key show ?thesis
    by (auto simp: mapLogLevelToValidEnum_def Let_def getProperty_def valueOr_def own
          objectPrototype_def)
qed

lemma level_truthy: "truthyValue (mapLogLevelToValidEnum l)"
proof (cases "inheritedLevel l")
  case True
  from level_inherited [OF True] show ?thesis by auto
next
  case False
  from level_ordinary [OF False] show ?thesis by (auto simp: validLevels_def)
qed

lemma orElse_idem [simp]: "orElse (orElse a b) b = orElse a b"
  by (simp add: orElse_def)

lemma inheritedLevel_orElse [simp]: "inheritedLevel (orElse l ''info'') = inheritedLevel l"
  by (simp add: inheritedLevel_def)

lemma cleanLog_level: "level (cleanLog env i e) = mapLogLevelToValidEnum (orElse (level e) ''info'')"
  by (simp add: cleanLog_def)

lemma cleanLog_fills:
  "nowISO env \<noteq> [] \<Longrightarrow> stillValid (cleanLog env i e)"
  by (simp add: stillValid_def cleanLog_level level_truthy) (simp add: cleanLog_def orElse_def)

lemma nothing_dropped:
  assumes "nowISO env \<noteq> []"
  shows "validateAndCleanLogs env logs = map (\<lambda>(i, entry). cleanLog env i entry) (enumerate 0 logs)"
  unfolding validateAndCleanLogs_def
  by (rule filter_True) (auto simp: cleanLog_fills [OF assms])

lemma stillValid_fields:
  "stillValid r \<Longrightarrow>
   timestamp r \<noteq> [] \<and> truthyValue (level r) \<and> user r \<noteq> [] \<and> message r \<noteq> []"
  by (simp add: stillValid_def)

lemma posts_withRetry_cleaned:
  assumes "p \<in> set (posts (fst (sendLogsWithRetry cfg world logs)))" and "r \<in> set p"
  shows "stillValid r \<and> (\<exists>env. \<exists>i<length logs. r = cleanLog env i (logs ! i))"
proof -
  from assms(1) posts_from_cleaned [of cfg world logs 1]
  obtain k where "p = validateAndCleanLogs (fst (world k)) logs"
    by (auto simp: sendLogsWithRetry_def)
  with assms(2) show ?thesis
    by (auto simp: validateAndCleanLogs_iff)
qed

lemma posts_flush:
  "posts (fst (flush world now s)) =
     (case flushBegin s of
        None \<Rightarrow> []
      | Some (batch, s1) \<Rightarrow> posts (fst (sendLogsWithRetry (config s) world batch)))"
  by (auto simp: flush_def flushEnd_def split: option.splits prod.splits sum.splits)

lemma posted_level:
  assumes "\<exists>env. \<exists>i<length logs. r = cleanLog env i (logs ! i)"
    and "\<forall>e \<in> set logs. \<not> inheritedLevel (level e)"
  shows "\<exists>s \<in> set validLevels. level r = JsString s"
proof -
  from assms(1) obtain env i where i: "i < length logs" and r: "r = cleanLog env i (logs ! i)"
    by blast
  from i assms(2) have "\<not> inheritedLevel (orElse (level (logs ! i)) ''info'')"
    by simp
  from level_ordinary [OF this] show ?thesis
    by (simp add: r cleanLog_level)
qed

text \<open>
  C7 says that every transported record has a non-empty \<open>level\<close>, and
  \<open>mapLogLevelToValidEnum\<close> is written to return one of the accepted levels, with
  \<open>info\<close> for a level that its table does not map. The table is an object literal,
  though, and the level is looked up in it by indexing, after lower-casing. For the level
  \<open>Constructor\<close> the lookup returns the function \<open>Object\<close>, which the literal
  inherits; the function is truthy, so \<open>mapped || 'info'\<close> returns it and the final
  filter keeps the record; and \<open>JSON.stringify\<close> leaves a field that holds a function
  out of the body: the record is posted without a \<open>level\<close>. For the level
  \<open>__proto__\<close> the lookup returns the prototype object, and the record is posted with
  the level \<open>{}\<close>.
\<close>

theorem inherited_level_is_transported:
  "map (map (\<lambda>r. stringified (level r)))
     (posts (fst (sendLogsWithRetry testConfig (\<lambda>n. (testEnv, Response 200 True))
                    [(entry ''m'')\<lparr>level := ''Constructor''\<rparr>]))) = [[None]] \<and>
   map (map (\<lambda>r. stringified (level r)))
     (posts (fst (sendLogsWithRetry testConfig (\<lambda>n. (testEnv, Response 200 True))
                    [(entry ''m'')\<lparr>level := ''__proto__''\<rparr>]))) = [[Some JsonEmptyObject]]"
proof -
  have l1: "mapLogLevelToValidEnum ''Constructor'' = JsFunction ''Object''"
    by code_simp
  have l2: "mapLogLevelToValidEnum ''__proto__'' = ObjectPrototype"
    by code_simp
  have c: "mapComponentToValidEnum ''client'' = JsString ''client''"
    by code_simp
  show ?thesis
    by (simp add: sendLogsWithRetry_def sendLogsFrom.simps sendLogs_def Let_def
          validateAndCleanLogs_def cleanLog_def stillValid_def orElse_def optStr_def
          hasBigInt_def cleaningWarnings_def l1 l2 c)
qed

text \<open>
  The rest of what the claim says holds, and these two names are the only levels for which
  the level is missing. Every record of the batch that \<open>validateAndCleanLogs\<close>
  returns has a non-empty \<open>timestamp\<close>, \<open>user\<close> and \<open>message\<close> and a
  truthy \<open>level\<close>, and that batch is made of exactly the normalized records that pass
  the final test, so one that is still malformed after normalization is not in it. The
  level of a normalized record is one of the strings \<open>info\<close>, \<open>error\<close>,
  \<open>warn\<close> and \<open>debug\<close>, unless the level of the entry, lower-cased, is
  \<open>constructor\<close> or \<open>__proto__\<close>: then it is not a string, and no string is
  written for it in the body. Every POST of \<open>sendLogsWithRetry\<close>, on the first
  attempt and on every retry, and so every POST of a \<open>flush\<close>, carries only records
  with a non-empty \<open>timestamp\<close>, \<open>user\<close> and \<open>message\<close>, and with one of
  the four strings as \<open>level\<close> when no entry of the batch has one of the two
  inherited names as its level.
\<close>

lemma required_fields_apart_from_inherited_levels:
  "(\<forall>r \<in> set (validateAndCleanLogs env logs).
      timestamp r \<noteq> [] \<and> truthyValue (level r) \<and> user r \<noteq> [] \<and> message r \<noteq> []) \<and>
   (\<forall>r. r \<in> set (validateAndCleanLogs env logs) \<longleftrightarrow>
      (\<exists>i<length logs. r = cleanLog env i (logs ! i)) \<and> stillValid r) \<and>
   (\<not> inheritedLevel (level e) \<longrightarrow>
      (\<exists>l \<in> set validLevels. level (cleanLog env i e) = JsString l)) \<and>
   (inheritedLevel (level e) \<longrightarrow>
      (\<forall>l. stringified (level (cleanLog env i e)) \<noteq> Some (JsonString l))) \<and>
   (\<forall>p \<in> set (posts (fst (sendLogsWithRetry cfg world logs))). \<forall>r \<in> set p.
      timestamp r \<noteq> [] \<and> user r \<noteq> [] \<and> message r \<noteq> [] \<and>
      ((\<forall>e \<in> set logs. \<not> inheritedLevel (level e)) \<longrightarrow>
         (\<exists>l \<in> set validLevels. level r = JsString l))) \<and>
   (\<forall>p \<in> set (posts (fst (flush world now s))). \<forall>r \<in> set p.
      timestamp r \<noteq> [] \<and> user r \<noteq> [] \<and> message r \<noteq> [] \<and>
      ((\<forall>e \<in> set (logQueue s). \<not> inheritedLevel (level e)) \<longrightarrow>
         (\<exists>l \<in> set validLevels. level r = JsString l)))"
proof -
  have a: "\<forall>r \<in> set (validateAndCleanLogs env logs).
      timestamp r \<noteq> [] \<and> truthyValue (level r) \<and> user r \<noteq> [] \<and> message r \<noteq> []"
  proof
    fix r assume "r \<in> set (validateAndCleanLogs env logs)"
    then have "stillValid r" by (simp add: validateAndCleanLogs_iff)
    then show "timestamp r \<noteq> [] \<and> truthyValue (level r) \<and> user r \<noteq> [] \<and> message r \<noteq> []"
      by (rule stillValid_fields)
  qed
  have b: "\<forall>r. r \<in> set (validateAndCleanLogs env logs) \<longleftrightarrow>
      (\<exists>i<length logs. r = cleanLog env i (logs ! i)) \<and> stillValid r"
    using validateAndCleanLogs_iff by blast
  have c1: "\<exists>l \<in> set validLevels. level (cleanLog env i e) = JsString l"
    if "\<not> inheritedLevel (level e)"
  proof -
    from that have "\<not> inheritedLevel (orElse (level e) ''info'')" by simp
    from level_ordinary [OF this] show ?thesis by (simp add: cleanLog_level)
  qed
  have c2: "\<forall>l. stringified (level (cleanLog env i e)) \<noteq> Some (JsonString l)"
    if "inheritedLevel (level e)"
  proof -
    from that have "inheritedLevel (orElse (level e) ''info'')" by simp
    from level_inherited [OF this] show ?thesis by (auto simp: cleanLog_level)
  qed
  have d: "\<forall>p \<in> set (posts (fst (sendLogsWithRetry cfg world logs))). \<forall>r \<in> set p.
      timestamp r \<noteq> [] \<and> user r \<noteq> [] \<and> message r \<noteq> [] \<and>
      ((\<forall>e \<in> set logs. \<not> inheritedLevel (level e)) \<longrightarrow>
         (\<exists>l \<in> set validLevels. level r = JsString l))"
  proof (intro ballI)
    fix p r assume "p \<in> set (posts (fst (sendLogsWithRetry cfg world logs)))" and "r \<in> set p"
    then have v: "stillValid r" and f: "\<exists>env. \<exists>i<length logs. r = cleanLog env i (logs ! i)"
      using posts_withRetry_cleaned by blast+
    from stillValid_fields [OF v] posted_level [OF f]
    show "timestamp r \<noteq> [] \<and> user r \<noteq> [] \<and> message r \<noteq> [] \<and>
      ((\<forall>e \<in> set logs. \<not> inheritedLevel (level e)) \<longrightarrow>
         (\<exists>l \<in> set validLevels. level r = JsString l))"
      by blast
  qed
  have e: "\<forall>p \<in> set (posts (fst (flush world now s))). \<forall>r \<in> set p.
      timestamp r \<noteq> [] \<and> user r \<noteq> [] \<and> message r \<noteq> [] \<and>
      ((\<forall>e \<in> set (logQueue s). \<not> inheritedLevel (level e)) \<longrightarrow>
         (\<exists>l \<in> set validLevels. level r = JsString l))"
  proof (intro ballI)
    fix p r assume p: "p \<in> set (posts (fst (flush world now s)))" and r: "r \<in> set p"
    from p obtain batch s1 where fb: "flushBegin s = Some (batch, s1)"
      and pb: "p \<in> set (posts (fst (sendLogsWithRetry (config s) world batch)))"
      by (cases "flushBegin s") (auto simp: posts_flush)
    from flushBegin_SomeD [OF fb] have sub: "set batch \<subseteq> set (logQueue s)"
      by (auto dest: in_set_takeD)
    from pb r have v: "stillValid r"
      and f: "\<exists>env. \<exists>i<length batch. r = cleanLog env i (batch ! i)"
      using posts_withRetry_cleaned by blast+
    have "\<exists>l \<in> set validLevels. level r = JsString l"
      if "\<forall>e \<in> set (logQueue s). \<not> inheritedLevel (level e)"
    proof -
      from that sub have "\<forall>e \<in> set batch. \<not> inheritedLevel (level e)" by blast
      with posted_level [OF f] show ?thesis by blast
    qed
    with stillValid_fields [OF v]
    show "timestamp r \<noteq> [] \<and> user r \<noteq> [] \<and> message r \<noteq> [] \<and>
      ((\<forall>e \<in> set (logQueue s). \<not> inheritedLevel (level e)) \<longrightarrow>
         (\<exists>l \<in> set validLevels. level r = JsString l))"
      by blast
  qed
  from a b c1 c2 d e show ?thesis by blast
qed

text \<open>
  The lemma at work on an entry with every string empty but a level \<open>FATAL\<close> and a
  component \<open>Server\<close>: normalization fills it, the record that would be posted has the
  four fields, and its level is the string \<open>error\<close>.
\<close>

lemma required_fields_example:
  "validateAndCleanLogs testEnv
     [\<lparr>timestamp = [], level = ''FATAL'', sessionId = [], user = [], integration = [],
       component = ''Server'', action = [], message = [], serverName = [],
       projectId = None, organizationId = None, metadata = None\<rparr>] =
     [\<lparr>timestamp = ''2024-01-01T00:00:00.000Z'', level = JsString ''error'',
       sessionId = ''notion-mcp-1-abc'', user = ''unknown'', integration = ''unknown'',
       component = JsString ''client'', action = ''unknown'', message = ''No message'',
       serverName = ''notion-mcp'', projectId = Some [], organizationId = Some [],
       metadata = None\<rparr>] \<and>
   list_all (\<lambda>r. timestamp r \<noteq> [] \<and> truthyValue (level r) \<and> user r \<noteq> [] \<and> message r \<noteq> [])
     (validateAndCleanLogs testEnv
        [\<lparr>timestamp = [], level = ''FATAL'', sessionId = [], user = [], integration = [],
          component = ''Server'', action = [], message = [], serverName = [],
          projectId = None, organizationId = None, metadata = None\<rparr>]) \<and>
   \<not> inheritedLevel ''FATAL'' \<and>
   list_ex (\<lambda>l. level (cleanLog testEnv 0
        \<lparr>timestamp = [], level = ''FATAL'', sessionId = [], user = [], integration = [],
          component = ''Server'', action = [], message = [], serverName = [],
          projectId = None, organizationId = None, metadata = None\<rparr>) = JsString l) validLevels"
proof -
  let ?blank = "\<lparr>timestamp = [], level = ''FATAL'', sessionId = [], user = [], integration = [],
       component = ''Server'', action = [], message = [], serverName = [],
       projectId = None, organizationId = None, metadata = None\<rparr>"
  have lvl: "mapLogLevelToValidEnum ''FATAL'' = JsString ''error''"
    by code_simp
  have cmp: "mapComponentToValidEnum ''Server'' = JsString ''client''"
    by code_simp
  have ord: "\<not> inheritedLevel ''FATAL''"
    by code_simp
  have cl: "cleanLog testEnv 0 ?blank =
     \<lparr>timestamp = ''2024-01-01T00:00:00.000Z'', level = JsString ''error'',
       sessionId = ''notion-mcp-1-abc'', user = ''unknown'', integration = ''unknown'',
       component = JsString ''client'', action = ''unknown'', message = ''No message'',
       serverName = ''notion-mcp'', projectId = Some [], organizationId = Some [],
       metadata = None\<rparr>"
    by (simp add: cleanLog_def orElse_def optStr_def lvl cmp)
  have ev: "validateAndCleanLogs testEnv [?blank] =
     [\<lparr>timestamp = ''2024-01-01T00:00:00.000Z'', level = JsString ''error'',
       sessionId = ''notion-mcp-1-abc'', user = ''unknown'', integration = ''unknown'',
       component = JsString ''client'', action = ''unknown'', message = ''No message'',
       serverName = ''notion-mcp'', projectId = Some [], organizationId = Some [],
       metadata = None\<rparr>]"
    by (simp add: validateAndCleanLogs_def cl stillValid_def)
  note inst = required_fields_apart_from_inherited_levels [of testEnv "[?blank]" ?blank 0]
  from inst
  have "\<forall>r \<in> set (validateAndCleanLogs testEnv [?blank]).
      timestamp r \<noteq> [] \<and> truthyValue (level r) \<and> user r \<noteq> [] \<and> message r \<noteq> []"
    by blast
  then have all: "list_all (\<lambda>r. timestamp r \<noteq> [] \<and> truthyValue (level r) \<and> user r \<noteq> [] \<and>
                     message r \<noteq> [])
     (validateAndCleanLogs testEnv [?blank])"
    by (simp add: list_all_iff)
  from inst ord have "\<exists>l \<in> set validLevels. level (cleanLog testEnv 0 ?blank) = JsString l"
    by simp
  then have lv: "list_ex (\<lambda>l. level (cleanLog testEnv 0 ?blank) = JsString l) validLevels"
    by (simp add: list_ex_iff)
  from ev all ord lv show ?thesis by blast
qed
subsection \<open>A failed flush\<close>

lemma settle_failure:
  assumes "i < length (outstanding sys)"
    and "snd (sendLogsWithRetry (config (shipper sys)) world (outstanding sys ! i)) = Inl err"
  shows "settle i world now sys =
           (Inl err,
            sys\<lparr>shipper := (shipper sys)\<lparr>logQueue := outstanding sys ! i @ logQueue (shipper sys)\<rparr>,
                outstanding := take i (outstanding sys) @ drop (Suc i) (outstanding sys)\<rparr>)"
  using assms by (simp add: settle_def flushEnd_def Let_def)

lemma answering_400_fails:
  assumes "\<not> list_ex hasBigInt logs"
  shows "snd (sendLogsWithRetry testConfig (answering 400) logs) = Inl BadRequest"
proof -
  have "snd (sendLogsWithRetry testConfig (answering 400) logs) =
          snd (sendLogs testConfig (fst (answering 400 1)) (snd (answering 400 1)) logs)"
    by (rule withRetry_client_error(1) [where n = 1]) (simp_all add: assms)
  then show ?thesis
    by (simp add: sendLogs_def Let_def cleaned_serializes [OF assms])
qed

lemma midFlush_fields:
  "shipper midFlush = testShipper\<lparr>logQueue := [entry ''b'']\<rparr>"
  "outstanding midFlush = [[entry ''a'']]"
  by (simp_all add: addLog_def callFlush_def flushBegin_def Let_def)

lemma settle_400:
  assumes "i < length (outstanding sys)" and "config (shipper sys) = testConfig"
    and "\<not> list_ex hasBigInt (outstanding sys ! i)"
  shows "settle i (answering 400) now sys =
           (Inl BadRequest,
            sys\<lparr>shipper := (shipper sys)\<lparr>logQueue := outstanding sys ! i @ logQueue (shipper sys)\<rparr>,
                outstanding := take i (outstanding sys) @ drop (Suc i) (outstanding sys)\<rparr>)"
  by (rule settle_failure [OF assms(1)]) (simp add: assms(2) answering_400_fails [OF assms(3)])

text \<open>
  C2, as stated, concludes that the order of the records is kept across retries. The batch
  goes back to the head of the queue as it is when the delivery fails, and nothing keeps a
  second \<open>flush\<close> from taking later records in the meantime: when \<open>a\<close> and then
  \<open>b\<close> are taken by two calls and both deliveries fail, in that order, \<open>b\<close> ends
  up in front of \<open>a\<close>.
\<close>

theorem overlapping_failed_flushes_reorder_the_queue:
  "logQueue
     (shipper
        (run [AddLog (entry ''a''), CallFlush, AddLog (entry ''b''), CallFlush,
              Settle 0 (answering 400) 7, Settle 0 (answering 400) 8]
           \<lparr>shipper = testShipper, outstanding = []\<rparr>)) =
     [entry ''b'', entry ''a'']"
proof -
  have both: "run [AddLog (entry ''a''), CallFlush, AddLog (entry ''b''), CallFlush]
                \<lparr>shipper = testShipper, outstanding = []\<rparr> =
              \<lparr>shipper = testShipper, outstanding = [[entry ''a''], [entry ''b'']]\<rparr>"
    by (simp add: addLog_def callFlush_def flushBegin_def Let_def)
  have one: "settle 0 (answering 400) 7
               \<lparr>shipper = testShipper, outstanding = [[entry ''a''], [entry ''b'']]\<rparr> =
             (Inl BadRequest,
              \<lparr>shipper = testShipper\<lparr>logQueue := [entry ''a'']\<rparr>, outstanding = [[entry ''b'']]\<rparr>)"
    by (simp add: settle_400 hasBigInt_def)
  have two: "settle 0 (answering 400) 8
               \<lparr>shipper = testShipper\<lparr>logQueue := [entry ''a'']\<rparr>, outstanding = [[entry ''b'']]\<rparr> =
             (Inl BadRequest,
              \<lparr>shipper = testShipper\<lparr>logQueue := [entry ''b'', entry ''a'']\<rparr>, outstanding = []\<rparr>)"
    by (simp add: settle_400 hasBigInt_def)
  have r: "run [AddLog (entry ''a''), CallFlush, AddLog (entry ''b''), CallFlush,
                Settle 0 (answering 400) 7, Settle 0 (answering 400) 8]
             \<lparr>shipper = testShipper, outstanding = []\<rparr> =
           snd (settle 0 (answering 400) 8
                  (snd (settle 0 (answering 400) 7
                          (run [AddLog (entry ''a''), CallFlush, AddLog (entry ''b''), CallFlush]
                             \<lparr>shipper = testShipper, outstanding = []\<rparr>))))"
    by (simp only: run.simps step.simps)
  show ?thesis
    unfolding r both one snd_conv two by simp
qed

text \<open>
  C2, amended. A \<open>flush\<close> that took \<open>batch\<close> from the head of the queue and whose
  delivery fails puts the whole batch back in front of whatever the queue holds by then, in
  its order, and rethrows the error to its caller; the same holds for a suspended
  \<open>flush\<close> call that \<open>settle\<close> ends with a failed delivery. The order of the
  records is kept when nothing but additions at the tail has happened to the queue since the
  batch was taken: the queue is then the queue from before the flush followed by the added
  entries, and a \<open>flush\<close> awaited with nothing in between leaves the queue as it was.
\<close>

theorem failed_flush_requeues_batch_at_head:
  "fst (snd (flushEnd now batch (Inl err) s2)) = Inl err \<and>
   logQueue (snd (snd (flushEnd now batch (Inl err) s2))) = batch @ logQueue s2 \<and>
   (flushBegin s = Some (batch, s1) \<longrightarrow>
      batch @ logQueue s1 = logQueue s \<and>
      (logQueue s2 = logQueue s1 @ added \<longrightarrow>
         logQueue (snd (snd (flushEnd now batch (Inl err) s2))) = logQueue s @ added) \<and>
      (snd (sendLogsWithRetry (config s) world batch) = Inl err \<longrightarrow>
         fst (snd (flush world now s)) = Inl err \<and>
         logQueue (snd (snd (flush world now s))) = logQueue s)) \<and>
   (i < length (outstanding sys) \<and>
    snd (sendLogsWithRetry (config (shipper sys)) world (outstanding sys ! i)) = Inl err \<longrightarrow>
      fst (settle i world now sys) = Inl err \<and>
      logQueue (shipper (snd (settle i world now sys))) =
        outstanding sys ! i @ logQueue (shipper sys))"
proof -
  have a: "fst (snd (flushEnd now batch (Inl err) s2)) = Inl err"
    and b: "logQueue (snd (snd (flushEnd now batch (Inl err) s2))) = batch @ logQueue s2"
    by (simp_all add: flushEnd_def)
  have c: "batch @ logQueue s1 = logQueue s \<and>
      (logQueue s2 = logQueue s1 @ added \<longrightarrow>
         logQueue (snd (snd (flushEnd now batch (Inl err) s2))) = logQueue s @ added) \<and>
      (snd (sendLogsWithRetry (config s) world batch) = Inl err \<longrightarrow>
         fst (snd (flush world now s)) = Inl err \<and>
         logQueue (snd (snd (flush world now s))) = logQueue s)"
    if fb: "flushBegin s = Some (batch, s1)"
  proof -
    from flushBegin_SomeD [OF fb]
    have whole: "batch @ logQueue s1 = logQueue s"
      by simp
    have later: "logQueue (snd (snd (flushEnd now batch (Inl err) s2))) = logQueue s @ added"
      if "logQueue s2 = logQueue s1 @ added"
      using that whole by (simp add: b)
    have awaited: "fst (snd (flush world now s)) = Inl err \<and>
                   logQueue (snd (snd (flush world now s))) = logQueue s"
      if "snd (sendLogsWithRetry (config s) world batch) = Inl err"
      using flush_failure [OF fb that, of now] by simp
    from whole later awaited show ?thesis by blast
  qed
  have d: "fst (settle i world now sys) = Inl err \<and>
      logQueue (shipper (snd (settle i world now sys))) =
        outstanding sys ! i @ logQueue (shipper sys)"
    if "i < length (outstanding sys) \<and>
        snd (sendLogsWithRetry (config (shipper sys)) world (outstanding sys ! i)) = Inl err"
    using that settle_failure [of i sys world err now] by simp
  from a b c d show ?thesis by blast
qed

text \<open>
  The theorem at work on \<open>midFlush\<close>: the delivery of \<open>a\<close> meets a 400, the suspended
  \<open>flush\<close> rethrows, and the queue is \<open>a\<close>, \<open>b\<close>: the order in which they were
  added.
\<close>

theorem failed_flush_witness:
  "flushBegin (testShipper\<lparr>logQueue := [entry ''a'']\<rparr>) = Some ([entry ''a''], testShipper) \<and>
   logQueue (shipper midFlush) = logQueue testShipper @ [entry ''b''] \<and>
   outstanding midFlush = [[entry ''a'']] \<and>
   snd (sendLogsWithRetry testConfig (answering 400) [entry ''a'']) = Inl BadRequest \<and>
   fst (settle 0 (answering 400) 7 midFlush) = Inl BadRequest \<and>
   logQueue (shipper (snd (settle 0 (answering 400) 7 midFlush))) = [entry ''a'', entry ''b''] \<and>
   logQueue (snd (snd (flushEnd 7 [entry ''a''] (Inl BadRequest) (shipper midFlush)))) =
     [entry ''a'', entry ''b'']"
proof -
  have fb: "flushBegin (testShipper\<lparr>logQueue := [entry ''a'']\<rparr>) =
              Some ([entry ''a''], testShipper)"
    by (simp add: flushBegin_def)
  have q: "logQueue (shipper midFlush) = logQueue testShipper @ [entry ''b'']"
    unfolding midFlush_fields by simp
  have pending: "0 < length (outstanding midFlush) \<and>
                 snd (sendLogsWithRetry (config (shipper midFlush)) (answering 400)
                        (outstanding midFlush ! 0)) = Inl BadRequest"
    unfolding midFlush_fields by (simp add: answering_400_fails hasBigInt_def)
  note inst = failed_flush_requeues_batch_at_head
      [of 7 "[entry ''a'']" BadRequest "shipper midFlush" "testShipper\<lparr>logQueue := [entry ''a'']\<rparr>"
          testShipper "[entry ''b'']" "answering 400" 0 midFlush]
  from inst fb q
  have late: "logQueue (snd (snd (flushEnd 7 [entry ''a''] (Inl BadRequest) (shipper midFlush)))) =
                logQueue (testShipper\<lparr>logQueue := [entry ''a'']\<rparr>) @ [entry ''b'']"
    by blast
  from inst pending
  have st: "fst (settle 0 (answering 400) 7 midFlush) = Inl BadRequest \<and>
            logQueue (shipper (snd (settle 0 (answering 400) 7 midFlush))) =
              outstanding midFlush ! 0 @ logQueue (shipper midFlush)"
    by blast
  from fb q late st show ?thesis
    unfolding midFlush_fields by (simp add: answering_400_fails hasBigInt_def)
qed

subsection \<open>Deliveries in flight\<close>

text \<open>
  C9, as stated, says that at most one batch is outstanding at any time. \<open>flush\<close> has no
  guard for a delivery under way: here the timer's \<open>flush\<close> takes \<open>a\<close>, and before
  it settles \<open>addLog\<close> brings the queue to the batch size of 2 and starts a second
  \<open>flush\<close>, which takes \<open>b\<close> and \<open>c\<close>. Two batches are then outstanding at
  once, neither delivery having settled.
\<close>

theorem two_batches_outstanding:
  "outstanding
     (run [AddLog (entry ''a''), CallFlush, AddLog (entry ''b''), AddLog (entry ''c'')]
        \<lparr>shipper = testShipper, outstanding = []\<rparr>) =
     [[entry ''a''], [entry ''b'', entry ''c'']]"
  by (simp add: addLog_def callFlush_def flushBegin_def Let_def)

lemma callFlush_starts:
  assumes "enabled (config (shipper sys))" and "logQueue (shipper sys) \<noteq> []"
  shows "callFlush sys =
           sys\<lparr>shipper := (shipper sys)
                  \<lparr>logQueue := drop (nat (batchSize (config (shipper sys)))) (logQueue (shipper sys))\<rparr>,
               outstanding := outstanding sys @
                  [take (nat (batchSize (config (shipper sys)))) (logQueue (shipper sys))]\<rparr>"
  using assms by (simp add: callFlush_def flushBegin_def)

lemma addLog_then_flush:
  assumes "enabled (config s)" and "\<not> isShuttingDown s" and "logQueue s = []"
    and "2 \<le> batchSize (config s)"
  shows "callFlush (addLog e \<lparr>shipper = s, outstanding = os\<rparr>) =
           \<lparr>shipper = s, outstanding = os @ [[e]]\<rparr>"
proof -
  have add: "addLog e \<lparr>shipper = s, outstanding = os\<rparr> =
               \<lparr>shipper = s\<lparr>logQueue := [e]\<rparr>, outstanding = os\<rparr>"
    using assms by (simp add: addLog_def Let_def)
  have same: "s\<lparr>logQueue := []\<rparr> = s"
    using assms(3) by (cases s) simp
  show ?thesis
    unfolding add using assms(1,4) same
    by (simp add: callFlush_def flushBegin_def)
qed

lemma flush_after_each_entry:
  assumes "enabled (config s)" and "\<not> isShuttingDown s" and "logQueue s = []"
    and "2 \<le> batchSize (config s)"
  shows "run (concat (replicate n [AddLog e, CallFlush])) \<lparr>shipper = s, outstanding = os\<rparr> =
           \<lparr>shipper = s, outstanding = os @ replicate n [e]\<rparr>"
proof (induction n arbitrary: os)
  case 0
  show ?case by simp
next
  case (Suc n)
  have "run (concat (replicate (Suc n) [AddLog e, CallFlush])) \<lparr>shipper = s, outstanding = os\<rparr> =
          run (concat (replicate n [AddLog e, CallFlush]))
            (callFlush (addLog e \<lparr>shipper = s, outstanding = os\<rparr>))"
    by simp
  also have "\<dots> = \<lparr>shipper = s, outstanding = (os @ [[e]]) @ replicate n [e]\<rparr>"
    unfolding addLog_then_flush [OF assms] by (rule Suc.IH)
  finally show ?case
    by (simp add: replicate_app_Cons_same)
qed

text \<open>
  C9, amended. A \<open>flush\<close> call made while shipping is enabled and the queue is not
  empty takes up to \<open>batchSize\<close> records from the head of the queue and starts a
  delivery of its own for them, whatever is outstanding already; a \<open>flush\<close> call while
  disabled or on an empty queue starts none. The number of batches in flight is not bounded:
  \<open>n\<close> times an \<open>addLog\<close> followed by a \<open>flush\<close>, with no delivery settling in
  between, leaves \<open>n\<close> batches outstanding.
\<close>

theorem flush_starts_a_delivery_of_its_own:
  "(enabled (config (shipper sys)) \<and> logQueue (shipper sys) \<noteq> [] \<longrightarrow>
      outstanding (callFlush sys) =
        outstanding sys @
          [take (nat (batchSize (config (shipper sys)))) (logQueue (shipper sys))] \<and>
      logQueue (shipper (callFlush sys)) =
        drop (nat (batchSize (config (shipper sys)))) (logQueue (shipper sys))) \<and>
   (\<not> enabled (config (shipper sys)) \<or> logQueue (shipper sys) = [] \<longrightarrow> callFlush sys = sys) \<and>
   (enabled (config s) \<and> \<not> isShuttingDown s \<and> logQueue s = [] \<and> 2 \<le> batchSize (config s) \<longrightarrow>
      outstanding (run (concat (replicate n [AddLog e, CallFlush]))
                     \<lparr>shipper = s, outstanding = []\<rparr>) = replicate n [e])"
proof (intro conjI impI)
  assume h: "enabled (config (shipper sys)) \<and> logQueue (shipper sys) \<noteq> []"
  then have eq: "callFlush sys =
           sys\<lparr>shipper := (shipper sys)
                  \<lparr>logQueue := drop (nat (batchSize (config (shipper sys)))) (logQueue (shipper sys))\<rparr>,
               outstanding := outstanding sys @
                  [take (nat (batchSize (config (shipper sys)))) (logQueue (shipper sys))]\<rparr>"
    using callFlush_starts by blast
  show "outstanding (callFlush sys) =
          outstanding sys @
            [take (nat (batchSize (config (shipper sys)))) (logQueue (shipper sys))]"
    by (simp add: eq)
  show "logQueue (shipper (callFlush sys)) =
          drop (nat (batchSize (config (shipper sys)))) (logQueue (shipper sys))"
    by (simp add: eq)
next
  assume "\<not> enabled (config (shipper sys)) \<or> logQueue (shipper sys) = []"
  then show "callFlush sys = sys"
    by (auto simp: callFlush_def flushBegin_def)
next
  assume "enabled (config s) \<and> \<not> isShuttingDown s \<and> logQueue s = [] \<and> 2 \<le> batchSize (config s)"
  then show "outstanding (run (concat (replicate n [AddLog e, CallFlush]))
                     \<lparr>shipper = s, outstanding = []\<rparr>) = replicate n [e]"
    using flush_after_each_entry [of s n e "[]"] by simp
qed

text \<open>
  The theorem at work: on \<open>midFlush\<close>, where \<open>a\<close> is in flight and \<open>b\<close> is queued, a
  further \<open>flush\<close> call puts \<open>b\<close> in flight beside it; on the new shipper a
  \<open>flush\<close> call starts nothing; and three rounds of \<open>addLog\<close> and \<open>flush\<close>
  leave three batches in flight.
\<close>

theorem flush_starts_a_delivery_witness:
  "outstanding midFlush = [[entry ''a'']] \<and>
   outstanding (callFlush midFlush) = [[entry ''a''], [entry ''b'']] \<and>
   logQueue (shipper (callFlush midFlush)) = [] \<and>
   callFlush \<lparr>shipper = testShipper, outstanding = []\<rparr> = \<lparr>shipper = testShipper, outstanding = []\<rparr> \<and>
   outstanding (run (concat (replicate 3 [AddLog (entry ''x''), CallFlush]))
                  \<lparr>shipper = testShipper, outstanding = []\<rparr>) =
     [[entry ''x''], [entry ''x''], [entry ''x'']]"
proof -
  have live: "enabled (config (shipper midFlush)) \<and> logQueue (shipper midFlush) \<noteq> []"
    unfolding midFlush_fields by simp
  have idle: "\<not> enabled (config (shipper \<lparr>shipper = testShipper, outstanding = []\<rparr>)) \<or>
              logQueue (shipper \<lparr>shipper = testShipper, outstanding = []\<rparr>) = []"
    by simp
  have fresh: "enabled (config testShipper) \<and> \<not> isShuttingDown testShipper \<and>
               logQueue testShipper = [] \<and> 2 \<le> batchSize (config testShipper)"
    by simp
  from flush_starts_a_delivery_of_its_own [of midFlush testShipper 3 "entry ''x''"] live fresh
  have a: "outstanding (callFlush midFlush) =
             outstanding midFlush @
               [take (nat (batchSize (config (shipper midFlush)))) (logQueue (shipper midFlush))] \<and>
           logQueue (shipper (callFlush midFlush)) =
             drop (nat (batchSize (config (shipper midFlush)))) (logQueue (shipper midFlush)) \<and>
           outstanding (run (concat (replicate 3 [AddLog (entry ''x''), CallFlush]))
                     \<lparr>shipper = testShipper, outstanding = []\<rparr>) = replicate 3 [entry ''x'']"
    by blast
  from flush_starts_a_delivery_of_its_own
         [of "\<lparr>shipper = testShipper, outstanding = []\<rparr>" testShipper 0 "entry ''x''"] idle
  have b: "callFlush \<lparr>shipper = testShipper, outstanding = []\<rparr> =
             \<lparr>shipper = testShipper, outstanding = []\<rparr>"
    by blast
  have three: "replicate 3 [entry ''x''] = [[entry ''x''], [entry ''x''], [entry ''x'']]"
    by (simp add: numeral_3_eq_3)
  from a b show ?thesis
    unfolding midFlush_fields by (simp add: three)
qed


end
